theory Spec2Isabelle
  imports Main "HOL-Library.Word" "HOL-Library.List_Lexorder"
begin

unbundle bit_operations_syntax

section \<open>Bytes and the little-endian codec\<close>

text \<open>
  A Go \<^verbatim>\<open>[]byte\<close> is a list of 8-bit words, a \<^verbatim>\<open>uint32\<close> a 32-bit word whose
  arithmetic wraps around. A Go \<^verbatim>\<open>int\<close> is modelled by \<^typ>\<open>int\<close>: the list code
  only negates an index and truncates it to 32 bits, which \<open>word_of_int\<close> does for
  every 64-bit value the way the conversion \<^verbatim>\<open>uint32(index)\<close> does.
\<close>

type_synonym byte = "8 word"
type_synonym bytes = "byte list"
type_synonym u32 = "32 word"

text \<open>\<^verbatim>\<open>binary.LittleEndian.PutUint32\<close> and \<^verbatim>\<open>binary.LittleEndian.Uint32\<close> of Go's
  standard library. Reading fewer than four bytes panics: \<open>None\<close>.\<close>

definition PutUint32 :: "u32 \<Rightarrow> bytes" where
  "PutUint32 v = [ucast v, ucast (drop_bit 8 v), ucast (drop_bit 16 v), ucast (drop_bit 24 v)]"

fun Uint32 :: "bytes \<Rightarrow> u32 option" where
  "Uint32 (b0 # b1 # b2 # b3 # rest) =
     Some (ucast b0 OR push_bit 8 (ucast b1) OR push_bit 16 (ucast b2) OR push_bit 24 (ucast b3))"
| "Uint32 _ = None"

section \<open>The list datatype (LPush, RPush, LPop, RPop, LLen, LIndex, LSet, LRange, LMove)\<close>

datatype error = ErrKeyNotFound | ErrWrongIndex | ErrIO | ErrCorrupt | Panic

datatype entryType = TypePut | TypeDelete | TypeListMeta

record LogEntry =
  Key :: bytes
  Value :: bytes
  Type :: entryType

text \<open>
  The adaptive radix tree of one list key maps an internal key to the position of its
  entry in the log. The log of the list datatype is the sequence of entries appended so
  far, and a position is the index of an entry in it. The field \<open>io\<close> is the outcome
  of the next appends, in order (\<open>False\<close>: the append fails with an IO error); when
  it is used up every append succeeds.
\<close>

type_synonym art = "bytes \<rightharpoonup> nat"

record RoseDB =
  logfile :: "LogEntry list"
  trees :: "bytes \<rightharpoonup> art"
  io :: "bool list"

definition openDB :: "bool list \<Rightarrow> RoseDB" where
  "openDB sched = \<lparr>logfile = [], trees = Map.empty, io = sched\<rparr>"

text \<open>Modelled from the spec: the constant \<^verbatim>\<open>initialListSeq\<close> is declared outside the
  list file; the spec gives \<open>initial = 2^31\<close>.\<close>

definition initialListSeq :: u32 where
  "initialListSeq = 2 ^ 31"

text \<open>Modelled from the spec: \<^verbatim>\<open>writeLogEntry\<close> is the log manager's
  \<open>append(datatype, entry) \<rightarrow> Position\<close>, which writes the entry to the active segment
  and returns its position, or fails with an IO error and writes nothing.\<close>

definition writeLogEntry :: "RoseDB \<Rightarrow> LogEntry \<Rightarrow> RoseDB \<times> (error + nat)" where
  "writeLogEntry db ent =
     (case io db of
        [] \<Rightarrow> (db\<lparr>logfile := logfile db @ [ent]\<rparr>, Inr (length (logfile db)))
      | ok # rest \<Rightarrow>
          if ok then (db\<lparr>logfile := logfile db @ [ent], io := rest\<rparr>, Inr (length (logfile db)))
          else (db\<lparr>io := rest\<rparr>, Inl ErrIO))"

text \<open>Modelled from the spec: \<^verbatim>\<open>updateIndexTree\<close> is the radix trie's
  \<open>put(iKey, node)\<close> on the tree of the user key, with the entry's key and the position
  the append returned. The tree is the object \<^verbatim>\<open>trees[key]\<close> that the callers hold by
  pointer, so it is addressed by the user key; a nil tree is a panic. The discard event
  for the superseded node touches neither the log nor the index and is left out.\<close>

definition updateIndexTree :: "RoseDB \<Rightarrow> bytes \<Rightarrow> LogEntry \<Rightarrow> nat \<Rightarrow> RoseDB \<times> error option" where
  "updateIndexTree db key ent pos =
     (case trees db key of
        None \<Rightarrow> (db, Some Panic)
      | Some idxTree \<Rightarrow> (db\<lparr>trees := (trees db)(key \<mapsto> idxTree(Key ent \<mapsto> pos))\<rparr>, None))"

text \<open>Modelled from the spec: \<^verbatim>\<open>getVal\<close> is the trie's \<open>get(iKey)\<close> followed by the
  log manager's \<open>readAt\<close> at the position found; an internal key that the tree does
  not hold is \<open>KeyNotFound\<close>, a position outside the log is \<open>Corrupt\<close>. No list
  operation of the file sets a deadline, so nothing read here is expired.\<close>

definition getVal :: "RoseDB \<Rightarrow> art \<Rightarrow> bytes \<Rightarrow> error + bytes" where
  "getVal db idxTree key =
     (case idxTree key of
        None \<Rightarrow> Inl ErrKeyNotFound
      | Some pos \<Rightarrow>
          if pos < length (logfile db) then Inr (Value (logfile db ! pos)) else Inl ErrCorrupt)"

definition encodeListKey :: "bytes \<Rightarrow> u32 \<Rightarrow> bytes" where
  "encodeListKey key seq = PutUint32 seq @ key"

text \<open>\<^verbatim>\<open>buf[:4]\<close> panics on a buffer shorter than four bytes.\<close>

definition decodeListKey :: "bytes \<Rightarrow> (bytes \<times> u32) option" where
  "decodeListKey buf =
     (case Uint32 (take 4 buf) of
        None \<Rightarrow> None
      | Some seq \<Rightarrow> Some (drop 4 buf, seq))"

definition listMeta :: "RoseDB \<Rightarrow> art \<Rightarrow> bytes \<Rightarrow> error + (u32 \<times> u32)" where
  "listMeta db idxTree key =
     (case getVal db idxTree key of
        Inl err \<Rightarrow>
          if err \<noteq> ErrKeyNotFound then Inl err
          else Inr (initialListSeq, initialListSeq + 1)
      | Inr val \<Rightarrow>
          if length val \<noteq> 0 then
            (case (Uint32 (take 4 val), Uint32 (take 4 (drop 4 val))) of
               (Some headSeq, Some tailSeq) \<Rightarrow> Inr (headSeq, tailSeq)
             | _ \<Rightarrow> Inl Panic)
          else Inr (initialListSeq, initialListSeq + 1))"

definition saveListMeta :: "RoseDB \<Rightarrow> bytes \<Rightarrow> u32 \<Rightarrow> u32 \<Rightarrow> RoseDB \<times> error option" where
  "saveListMeta db key headSeq tailSeq =
     (let buf = PutUint32 headSeq @ PutUint32 tailSeq;
          ent = \<lparr>Key = key, Value = buf, Type = TypeListMeta\<rparr>
      in case writeLogEntry db ent of
           (db1, Inl err) \<Rightarrow> (db1, Some err)
         | (db1, Inr pos) \<Rightarrow> updateIndexTree db1 key ent pos)"

definition pushInternal :: "RoseDB \<Rightarrow> bytes \<Rightarrow> bytes \<Rightarrow> bool \<Rightarrow> RoseDB \<times> error option" where
  "pushInternal db key val isLeft =
     (case trees db key of
        None \<Rightarrow> (db, Some Panic)
      | Some idxTree \<Rightarrow>
          (case listMeta db idxTree key of
             Inl err \<Rightarrow> (db, Some err)
           | Inr (headSeq, tailSeq) \<Rightarrow>
               (let seq = (if \<not> isLeft then tailSeq else headSeq);
                    encKey = encodeListKey key seq;
                    ent = \<lparr>Key = encKey, Value = val, Type = TypePut\<rparr>
                in case writeLogEntry db ent of
                     (db1, Inl err) \<Rightarrow> (db1, Some err)
                   | (db1, Inr valuePos) \<Rightarrow>
                       (case updateIndexTree db1 key ent valuePos of
                          (db2, Some err) \<Rightarrow> (db2, Some err)
                        | (db2, None) \<Rightarrow>
                            if isLeft then saveListMeta db2 key (headSeq - 1) tailSeq
                            else saveListMeta db2 key headSeq (tailSeq + 1)))))"

text \<open>The tombstone's discard event is sent after the metadata is saved; it touches
  neither the log nor the index and is left out. A nil value is \<open>None\<close>.\<close>

definition popInternal :: "RoseDB \<Rightarrow> bytes \<Rightarrow> bool \<Rightarrow> RoseDB \<times> (error + bytes option)" where
  "popInternal db key isLeft =
     (case trees db key of
        None \<Rightarrow> (db, Inr None)
      | Some idxTree \<Rightarrow>
          (case listMeta db idxTree key of
             Inl err \<Rightarrow> (db, Inl err)
           | Inr (headSeq, tailSeq) \<Rightarrow>
               if tailSeq - headSeq - 1 \<le> 0 then
                 (if headSeq \<noteq> initialListSeq \<or> tailSeq \<noteq> initialListSeq + 1
                  then (fst (saveListMeta db key initialListSeq (initialListSeq + 1)), Inr None)
                  else (db, Inr None))
               else
                 (let seq = (if \<not> isLeft then tailSeq - 1 else headSeq + 1);
                      encKey = encodeListKey key seq
                  in case getVal db idxTree encKey of
                       Inl err \<Rightarrow> (db, Inl err)
                     | Inr val \<Rightarrow>
                         (let ent = \<lparr>Key = encKey, Value = [], Type = TypeDelete\<rparr>
                          in case writeLogEntry db ent of
                               (db1, Inl err) \<Rightarrow> (db1, Inl err)
                             | (db1, Inr pos) \<Rightarrow>
                                 (let db2 = db1\<lparr>trees := (trees db1)(key \<mapsto> idxTree(encKey := None))\<rparr>
                                  in case (if isLeft then saveListMeta db2 key (headSeq + 1) tailSeq
                                           else saveListMeta db2 key headSeq (tailSeq - 1)) of
                                       (db3, Some err) \<Rightarrow> (db3, Inl err)
                                     | (db3, None) \<Rightarrow> (db3, Inr (Some val)))))))"

fun pushAll :: "RoseDB \<Rightarrow> bytes \<Rightarrow> bytes list \<Rightarrow> bool \<Rightarrow> RoseDB \<times> error option" where
  "pushAll db key [] isLeft = (db, None)"
| "pushAll db key (val # vals) isLeft =
     (case pushInternal db key val isLeft of
        (db1, Some err) \<Rightarrow> (db1, Some err)
      | (db1, None) \<Rightarrow> pushAll db1 key vals isLeft)"

definition newTree :: "RoseDB \<Rightarrow> bytes \<Rightarrow> RoseDB" where
  "newTree db key = (if trees db key = None then db\<lparr>trees := (trees db)(key \<mapsto> Map.empty)\<rparr> else db)"

definition LPush :: "RoseDB \<Rightarrow> bytes \<Rightarrow> bytes list \<Rightarrow> RoseDB \<times> error option" where
  "LPush db key vals = pushAll (newTree db key) key vals True"

definition LPushX :: "RoseDB \<Rightarrow> bytes \<Rightarrow> bytes list \<Rightarrow> RoseDB \<times> error option" where
  "LPushX db key vals =
     (if trees db key = None then (db, Some ErrKeyNotFound) else pushAll db key vals True)"

definition RPush :: "RoseDB \<Rightarrow> bytes \<Rightarrow> bytes list \<Rightarrow> RoseDB \<times> error option" where
  "RPush db key vals = pushAll (newTree db key) key vals False"

definition RPushX :: "RoseDB \<Rightarrow> bytes \<Rightarrow> bytes list \<Rightarrow> RoseDB \<times> error option" where
  "RPushX db key vals =
     (if trees db key = None then (db, Some ErrKeyNotFound) else pushAll db key vals False)"

definition LPop :: "RoseDB \<Rightarrow> bytes \<Rightarrow> RoseDB \<times> (error + bytes option)" where
  "LPop db key = popInternal db key True"

definition RPop :: "RoseDB \<Rightarrow> bytes \<Rightarrow> RoseDB \<times> (error + bytes option)" where
  "RPop db key = popInternal db key False"

definition LMove :: "RoseDB \<Rightarrow> bytes \<Rightarrow> bytes \<Rightarrow> bool \<Rightarrow> bool \<Rightarrow> RoseDB \<times> (error + bytes option)" where
  "LMove db srcKey dstKey srcIsLeft dstIsLeft =
     (case popInternal db srcKey srcIsLeft of
        (db1, Inl err) \<Rightarrow> (db1, Inl err)
      | (db1, Inr None) \<Rightarrow> (db1, Inr None)
      | (db1, Inr (Some popValue)) \<Rightarrow>
          (case pushInternal (newTree db1 dstKey) dstKey popValue dstIsLeft of
             (db2, Some err) \<Rightarrow> (db2, Inl err)
           | (db2, None) \<Rightarrow> (db2, Inr (Some popValue))))"

text \<open>\<^verbatim>\<open>int(tailSeq - headSeq - 1)\<close>: the 32-bit difference, read as unsigned.\<close>

definition LLen :: "RoseDB \<Rightarrow> bytes \<Rightarrow> int" where
  "LLen db key =
     (case trees db key of
        None \<Rightarrow> 0
      | Some idxTree \<Rightarrow>
          (case listMeta db idxTree key of
             Inl err \<Rightarrow> 0
           | Inr (headSeq, tailSeq) \<Rightarrow> uint (tailSeq - headSeq - 1)))"

text \<open>\<^verbatim>\<open>listSequence\<close> never fails: its error result is always nil.\<close>

definition listSequence :: "u32 \<Rightarrow> u32 \<Rightarrow> int \<Rightarrow> u32" where
  "listSequence headSeq tailSeq index =
     (if index \<ge> 0 then headSeq + word_of_int index + 1
      else tailSeq - word_of_int (- index))"

definition LIndex :: "RoseDB \<Rightarrow> bytes \<Rightarrow> int \<Rightarrow> error + bytes option" where
  "LIndex db key index =
     (case trees db key of
        None \<Rightarrow> Inr None
      | Some idxTree \<Rightarrow>
          (case listMeta db idxTree key of
             Inl err \<Rightarrow> Inl err
           | Inr (headSeq, tailSeq) \<Rightarrow>
               (let seq = listSequence headSeq tailSeq index
                in if seq \<ge> tailSeq \<or> seq \<le> headSeq then Inl ErrWrongIndex
                   else (case getVal db idxTree (encodeListKey key seq) of
                           Inl err \<Rightarrow> Inl err
                         | Inr val \<Rightarrow> Inr (Some val)))))"

definition LSet :: "RoseDB \<Rightarrow> bytes \<Rightarrow> int \<Rightarrow> bytes \<Rightarrow> RoseDB \<times> error option" where
  "LSet db key index val =
     (case trees db key of
        None \<Rightarrow> (db, Some ErrKeyNotFound)
      | Some idxTree \<Rightarrow>
          (case listMeta db idxTree key of
             Inl err \<Rightarrow> (db, Some err)
           | Inr (headSeq, tailSeq) \<Rightarrow>
               (let seq = listSequence headSeq tailSeq index
                in if seq \<ge> tailSeq \<or> seq \<le> headSeq then (db, Some ErrWrongIndex)
                   else (let ent = \<lparr>Key = encodeListKey key seq, Value = val, Type = TypePut\<rparr>
                         in case writeLogEntry db ent of
                              (db1, Inl err) \<Rightarrow> (db1, Some err)
                            | (db1, Inr valuePos) \<Rightarrow> updateIndexTree db1 key ent valuePos))))"

text \<open>The loop \<^verbatim>\<open>for seq := startSeq; seq < endSeq+1; seq++\<close> of \<^verbatim>\<open>LRange\<close>, with
  the 32-bit wrap-around of \<^verbatim>\<open>endSeq+1\<close>.\<close>

function rangeLoop :: "RoseDB \<Rightarrow> art \<Rightarrow> bytes \<Rightarrow> u32 \<Rightarrow> u32 \<Rightarrow> bytes list \<Rightarrow> error + bytes list" where
  "rangeLoop db idxTree key seq endSeq vals =
     (if seq < endSeq + 1 then
        (case getVal db idxTree (encodeListKey key seq) of
           Inl err \<Rightarrow> Inl err
         | Inr val \<Rightarrow> rangeLoop db idxTree key (seq + 1) endSeq (vals @ [val]))
      else Inr vals)"
  by pat_completeness auto
termination
proof (relation "measure (\<lambda>(db, idxTree, key, seq, endSeq, vals). unat (endSeq + 1) - unat seq)")
  show "wf (measure (\<lambda>(db, idxTree, key, seq, endSeq, vals). unat (endSeq + 1) - unat seq))"
    by simp
next
  fix db :: RoseDB and idxTree :: art and key :: bytes and seq endSeq :: u32
    and vals :: "bytes list" and x2 :: bytes
  assume lt: "seq < endSeq + 1"
  then have a: "unat seq < unat (endSeq + 1)"
    by (simp add: word_less_nat_alt)
  have "unat (endSeq + 1) < 2 ^ 32"
    using unsigned_less [of "endSeq + 1"] by simp
  with a have "unat seq + unat (1 :: u32) < 2 ^ LENGTH(32)"
    by simp
  then have "unat (seq + 1) = unat seq + unat (1 :: u32)"
    by (simp only: unat_add_lem)
  then show "((db, idxTree, key, seq + 1, endSeq, vals @ [x2]), (db, idxTree, key, seq, endSeq, vals))
      \<in> measure (\<lambda>(db, idxTree, key, seq, endSeq, vals). unat (endSeq + 1) - unat seq)"
    using a by simp
qed

declare rangeLoop.simps [simp del]

definition LRange :: "RoseDB \<Rightarrow> bytes \<Rightarrow> int \<Rightarrow> int \<Rightarrow> error + bytes list" where
  "LRange db key start end' =
     (case trees db key of
        None \<Rightarrow> Inl ErrKeyNotFound
      | Some idxTree \<Rightarrow>
          (case listMeta db idxTree key of
             Inl err \<Rightarrow> Inl err
           | Inr (headSeq, tailSeq) \<Rightarrow>
               (let startSeq0 = listSequence headSeq tailSeq start;
                    endSeq0 = listSequence headSeq tailSeq end';
                    startSeq = (if startSeq0 \<le> headSeq then headSeq + 1 else startSeq0);
                    endSeq = (if endSeq0 \<ge> tailSeq then tailSeq - 1 else endSeq0)
                in if startSeq \<ge> tailSeq \<or> endSeq \<le> headSeq \<or> startSeq > endSeq
                   then Inl ErrWrongIndex
                   else rangeLoop db idxTree key startSeq endSeq [])))"


text \<open>The next append succeeds: the schedule is used up or starts with \<open>True\<close>.\<close>

definition appendSucceeds :: "RoseDB \<Rightarrow> bool" where
  "appendSucceeds db = (case io db of [] \<Rightarrow> True | ok # rest \<Rightarrow> ok)"

text \<open>The bytes of a string literal, as the conversion \<^verbatim>\<open>[]byte("L")\<close> gives them.\<close>

definition bytesOf :: "string \<Rightarrow> bytes" where
  "bytesOf s = map of_char s"

text \<open>The store of the end-to-end scenario: \<open>LPush("L","x")\<close>, \<open>LPush("L","y")\<close>,
  \<open>RPush("L","z")\<close> on an empty store whose appends all succeed.\<close>

definition scenarioDB :: RoseDB where
  "scenarioDB =
     fst (RPush (fst (LPush (fst (LPush (openDB []) (bytesOf ''L'') [bytesOf ''x'']))
                        (bytesOf ''L'') [bytesOf ''y'']))
            (bytesOf ''L'') [bytesOf ''z''])"

subsection \<open>Sequences of list operations and the metadata they keep\<close>

text \<open>
  The invariant behind the metadata claims: every list that exists has a metadata entry
  that points into the log (or none), and \<open>listMeta\<close> reads a pair \<open>(headSeq, tailSeq)\<close>
  that satisfies \<open>P\<close>.
\<close>

definition metaInv :: "(u32 \<Rightarrow> u32 \<Rightarrow> bool) \<Rightarrow> RoseDB \<Rightarrow> bool" where
  "metaInv P db =
     (\<forall>k idxTree. trees db k = Some idxTree \<longrightarrow>
        (\<forall>pos. idxTree k = Some pos \<longrightarrow> pos < length (logfile db))
        \<and> (\<exists>h t. listMeta db idxTree k = Inr (h, t) \<and> P h t))"

text \<open>After at most \<open>n\<close> pushed values neither sequence number has moved more than
  \<open>n\<close> steps from its initial value, and the head is below the tail, as integers.\<close>

definition inBounds :: "nat \<Rightarrow> u32 \<Rightarrow> u32 \<Rightarrow> bool" where
  "inBounds n h t = (2 ^ 31 - int n \<le> uint h \<and> uint h < uint t \<and> uint t \<le> 2 ^ 31 + 1 + int n)"

text \<open>The write operations of the list file, as a caller issues them; \<open>runOps\<close> applies
  a sequence of them and keeps the store, whatever each one returned. \<open>pushed\<close>
  counts the values an operation can push.\<close>

datatype listOp =
    OpLPush bytes "bytes list" | OpRPush bytes "bytes list"
  | OpLPushX bytes "bytes list" | OpRPushX bytes "bytes list"
  | OpLPop bytes | OpRPop bytes
  | OpLSet bytes int bytes
  | OpLMove bytes bytes bool bool

fun applyOp :: "listOp \<Rightarrow> RoseDB \<Rightarrow> RoseDB" where
  "applyOp (OpLPush k vals) db = fst (LPush db k vals)"
| "applyOp (OpRPush k vals) db = fst (RPush db k vals)"
| "applyOp (OpLPushX k vals) db = fst (LPushX db k vals)"
| "applyOp (OpRPushX k vals) db = fst (RPushX db k vals)"
| "applyOp (OpLPop k) db = fst (LPop db k)"
| "applyOp (OpRPop k) db = fst (RPop db k)"
| "applyOp (OpLSet k i v) db = fst (LSet db k i v)"
| "applyOp (OpLMove src dst srcIsLeft dstIsLeft) db = fst (LMove db src dst srcIsLeft dstIsLeft)"

fun pushed :: "listOp \<Rightarrow> nat" where
  "pushed (OpLPush k vals) = length vals"
| "pushed (OpRPush k vals) = length vals"
| "pushed (OpLPushX k vals) = length vals"
| "pushed (OpRPushX k vals) = length vals"
| "pushed (OpLMove src dst srcIsLeft dstIsLeft) = 1"
| "pushed _ = 0"

fun runOps :: "RoseDB \<Rightarrow> listOp list \<Rightarrow> RoseDB" where
  "runOps db [] = db"
| "runOps db (op # ops) = runOps (applyOp op db) ops"

fun pushedTotal :: "listOp list \<Rightarrow> nat" where
  "pushedTotal [] = 0"
| "pushedTotal (op # ops) = pushed op + pushedTotal ops"

text \<open>A family of metadata predicates indexed by the number of pushed values that the
  steps of push and pop respect, up to the bound \<open>B\<close>.\<close>

definition seqFamily :: "(nat \<Rightarrow> u32 \<Rightarrow> u32 \<Rightarrow> bool) \<Rightarrow> nat \<Rightarrow> bool" where
  "seqFamily R B =
     ((\<forall>m h t. R m h t \<longrightarrow> m < B \<longrightarrow> R (Suc m) h t \<and> R (Suc m) (h - 1) t \<and> R (Suc m) h (t + 1))
      \<and> (\<forall>m h t. R m h t \<longrightarrow> t - h - 1 \<noteq> 0 \<longrightarrow> R m (h + 1) t \<and> R m h (t - 1))
      \<and> (\<forall>m. R m initialListSeq (initialListSeq + 1)))"

text \<open>Stores used as concrete inputs: a list that received \<open>2^31 - 1\<close> right pushes;
  a list emptied by a pop; a store whose fourth append fails.\<close>

definition overflowDB :: RoseDB where
  "overflowDB = fst (RPush (openDB []) (bytesOf ''L'') (replicate (2 ^ 31 - 1) (bytesOf ''x'')))"

definition drainedDB :: RoseDB where
  "drainedDB = runOps (openDB []) [OpRPush (bytesOf ''L'') [bytesOf ''x''], OpLPop (bytesOf ''L'')]"

definition failDB :: RoseDB where
  "failDB = fst (RPush (openDB [True, True, True, False]) (bytesOf ''L'') [bytesOf ''x''])"

section \<open>The hash datatype (HSet, HSetNx, HDel, HGet)\<close>

text \<open>
  The hash file belongs to the version of the store that keeps one \<^verbatim>\<open>Indexer\<close> per
  field in \<^verbatim>\<open>hashIndex.indexes\<close> and writes \<^verbatim>\<open>storage.Entry\<close> records with
  \<^verbatim>\<open>db.store\<close>. The store of that version is the record \<open>HashDB\<close>: the index mode of
  the configuration, the field index, the active file, the entries stored so far and
  the outcome \<open>hio\<close> of the next writes (as \<open>io\<close> above). The input check
  \<^verbatim>\<open>checkKeyValue\<close> and the size of an encoded entry \<^verbatim>\<open>e.Size()\<close> are declared
  outside the file and are parameters of the store. No key has a deadline
  (\<^verbatim>\<open>HExpire\<close> is not modelled), so \<^verbatim>\<open>checkExpired\<close> answers false. A panic (a nil
  pointer dereference) is the result \<open>None\<close>.
\<close>

datatype idxMode = KeyValueMemMode | KeyOnlyMemMode

datatype hashMark = HashHSet | HashHDel

record Meta =
  MetaKey :: bytes
  MetaValue :: bytes
  MetaExtra :: bytes

record Entry =
  EntryMeta :: Meta
  Mark :: hashMark

record Indexer =
  IndexerMeta :: Meta
  FileId :: nat
  Offset :: int

record DBFile =
  DBFileId :: nat
  DBFileOffset :: int

record HashDB =
  IdxMode :: idxMode
  indexes :: "bytes \<rightharpoonup> (bytes \<rightharpoonup> Indexer)"
  activeFile :: "DBFile option"
  stored :: "Entry list"
  hio :: "bool list"
  checkKeyValue :: "bytes \<Rightarrow> bytes list \<Rightarrow> error option"
  entrySize :: "Entry \<Rightarrow> nat"

text \<open>\<^verbatim>\<open>storage.NewEntry(key, value, extra, Hash, mark)\<close>.\<close>

definition NewEntry :: "bytes \<Rightarrow> bytes \<Rightarrow> bytes \<Rightarrow> hashMark \<Rightarrow> Entry" where
  "NewEntry key val extra mark = \<lparr>EntryMeta = \<lparr>MetaKey = key, MetaValue = val, MetaExtra = extra\<rparr>, Mark = mark\<rparr>"

text \<open>Modelled from the spec: \<^verbatim>\<open>getActiveFile\<close> returns the active segment of the
  datatype, the single append target, or an error when there is none.\<close>

definition getActiveFile :: "HashDB \<Rightarrow> error + DBFile" where
  "getActiveFile db = (case activeFile db of None \<Rightarrow> Inl ErrIO | Some f \<Rightarrow> Inr f)"

text \<open>Modelled from the spec: \<^verbatim>\<open>db.store\<close> is \<open>append(datatype, entry)\<close>: it writes the
  entry to the active segment, whose offset advances by the entry's size, or fails and
  writes nothing.\<close>

definition store :: "HashDB \<Rightarrow> Entry \<Rightarrow> HashDB \<times> error option" where
  "store db e =
     (case getActiveFile db of
        Inl err \<Rightarrow> (db, Some err)
      | Inr f \<Rightarrow>
          (let written = db\<lparr>stored := stored db @ [e],
                            activeFile := Some (f\<lparr>DBFileOffset := DBFileOffset f + int (entrySize db e)\<rparr>)\<rparr>
           in case hio db of
                [] \<Rightarrow> (written, None)
              | ok # rest \<Rightarrow>
                  if ok then (written\<lparr>hio := rest\<rparr>, None) else (db\<lparr>hio := rest\<rparr>, Some ErrIO)))"

text \<open>Whether the index holds the field of the key.\<close>

definition fieldExists :: "HashDB \<Rightarrow> bytes \<Rightarrow> bytes \<Rightarrow> bool" where
  "fieldExists db key field = (case indexes db key of None \<Rightarrow> False | Some flds \<Rightarrow> flds field \<noteq> None)"

text \<open>Modelled from the spec: \<^verbatim>\<open>hash.HSetIndexer\<close> of the hash index, which the spec
  describes by its results: it returns 1 iff the field was inserted; without
  \<open>onlyNotExist\<close> an existing field is overwritten, and 0 is returned.\<close>

definition HSetIndexer :: "HashDB \<Rightarrow> Indexer \<Rightarrow> bool \<Rightarrow> HashDB \<times> int" where
  "HSetIndexer db idx onlyNotExist =
     (let key = MetaKey (IndexerMeta idx); field = MetaExtra (IndexerMeta idx)
      in case indexes db key of
           None \<Rightarrow> (db\<lparr>indexes := (indexes db)(key \<mapsto> [field \<mapsto> idx])\<rparr>, 1)
         | Some flds \<Rightarrow>
             (case flds field of
                None \<Rightarrow> (db\<lparr>indexes := (indexes db)(key \<mapsto> flds(field \<mapsto> idx))\<rparr>, 1)
              | Some old \<Rightarrow>
                  if onlyNotExist then (db, 0)
                  else (db\<lparr>indexes := (indexes db)(key \<mapsto> flds(field \<mapsto> idx))\<rparr>, 0)))"

text \<open>Modelled from the spec: \<^verbatim>\<open>hash.HGet\<close> and \<^verbatim>\<open>hash.HDel\<close> of the hash index are
  \<open>get(iKey) \<rightarrow> node?\<close> and \<open>delete(iKey) \<rightarrow> existed\<close>, the latter returning 1 when
  the field was there.\<close>

definition hashHGet :: "HashDB \<Rightarrow> bytes \<Rightarrow> bytes \<Rightarrow> Indexer option" where
  "hashHGet db key field = (case indexes db key of None \<Rightarrow> None | Some flds \<Rightarrow> flds field)"

definition hashHDel :: "HashDB \<Rightarrow> bytes \<Rightarrow> bytes \<Rightarrow> HashDB \<times> int" where
  "hashHDel db key field =
     (case indexes db key of
        None \<Rightarrow> (db, 0)
      | Some flds \<Rightarrow>
          (case flds field of
             None \<Rightarrow> (db, 0)
           | Some old \<Rightarrow> (db\<lparr>indexes := (indexes db)(key \<mapsto> flds(field := None))\<rparr>, 1)))"

text \<open>Modelled from the spec: \<^verbatim>\<open>readValFromDbFile\<close> is the positional read
  \<open>readAt(offset) \<rightarrow> entry\<close> in the file the indexer names; the stored entries lie one
  after the other from offset 0. Only \<open>HGet\<close> in key-only mode uses it.\<close>

fun readAt :: "Entry list \<Rightarrow> (Entry \<Rightarrow> nat) \<Rightarrow> int \<Rightarrow> Entry option" where
  "readAt [] sz off = None"
| "readAt (e # es) sz off =
     (if off = 0 then Some e else if off < int (sz e) then None else readAt es sz (off - int (sz e)))"

definition readValFromDbFile :: "HashDB \<Rightarrow> Indexer option \<Rightarrow> bytes option" where
  "readValFromDbFile db idx =
     (case idx of
        None \<Rightarrow> None
      | Some i \<Rightarrow>
          (case readAt (stored db) (entrySize db) (Offset i) of
             None \<Rightarrow> Some []
           | Some e \<Rightarrow> Some (MetaValue (EntryMeta e))))"

definition setHashIndexer :: "HashDB \<Rightarrow> Entry \<Rightarrow> bool \<Rightarrow> HashDB \<times> int" where
  "setHashIndexer db e onlyNotExist =
     (case getActiveFile db of
        Inl err \<Rightarrow> (db, 0)
      | Inr f \<Rightarrow>
          (let idx = \<lparr>IndexerMeta = \<lparr>MetaKey = MetaKey (EntryMeta e), MetaValue = [],
                                     MetaExtra = MetaExtra (EntryMeta e)\<rparr>,
                      FileId = DBFileId f,
                      Offset = DBFileOffset f - int (entrySize db e)\<rparr>;
               idx1 = (if IdxMode db = KeyValueMemMode
                       then idx\<lparr>IndexerMeta := (IndexerMeta idx)\<lparr>MetaValue := MetaValue (EntryMeta e)\<rparr>\<rparr>
                       else idx)
           in HSetIndexer db idx1 onlyNotExist))"

definition HGet :: "HashDB \<Rightarrow> bytes \<Rightarrow> bytes \<Rightarrow> bytes option" where
  "HGet db key field =
     (case checkKeyValue db key [[]] of
        Some err \<Rightarrow> Some []
      | None \<Rightarrow>
          (let idx = hashHGet db key field
           in if IdxMode db = KeyValueMemMode then
                (case idx of None \<Rightarrow> None | Some i \<Rightarrow> Some (MetaValue (IndexerMeta i)))
              else readValFromDbFile db idx))"

definition HSet :: "HashDB \<Rightarrow> bytes \<Rightarrow> bytes \<Rightarrow> bytes \<Rightarrow> (HashDB \<times> int \<times> error option) option" where
  "HSet db key field val =
     (case checkKeyValue db key [val] of
        Some err \<Rightarrow> Some (db, 0, Some err)
      | None \<Rightarrow>
          (let same = (if IdxMode db = KeyValueMemMode
                       then (case HGet db key field of None \<Rightarrow> None | Some oldVal \<Rightarrow> Some (oldVal = val))
                       else Some False)
           in case same of
                None \<Rightarrow> None
              | Some True \<Rightarrow> Some (db, 0, None)
              | Some False \<Rightarrow>
                  (let e = NewEntry key val field HashHSet
                   in case store db e of
                        (db1, Some err) \<Rightarrow> Some (db1, 0, Some err)
                      | (db1, None) \<Rightarrow>
                          (case setHashIndexer db1 e False of (db2, res) \<Rightarrow> Some (db2, res, None)))))"

definition HSetNx :: "HashDB \<Rightarrow> bytes \<Rightarrow> bytes \<Rightarrow> bytes \<Rightarrow> HashDB \<times> int \<times> error option" where
  "HSetNx db key field val =
     (case checkKeyValue db key [val] of
        Some err \<Rightarrow> (db, 0, Some err)
      | None \<Rightarrow>
          (let e = NewEntry key val field HashHSet
           in case setHashIndexer db e True of
                (db1, res) \<Rightarrow>
                  if res = 1 then
                    (case store db1 e of
                       (db2, Some err) \<Rightarrow> (db2, res, Some err)
                     | (db2, None) \<Rightarrow> (db2, res, None))
                  else (db1, res, None)))"

fun HDelLoop :: "HashDB \<Rightarrow> bytes \<Rightarrow> bytes list \<Rightarrow> int \<Rightarrow> HashDB \<times> int \<times> error option" where
  "HDelLoop db key [] res = (db, res, None)"
| "HDelLoop db key (f # fs) res =
     (case hashHDel db key f of
        (db1, ok) \<Rightarrow>
          if ok = 1 then
            (case store db1 (NewEntry key [] f HashHDel) of
               (db2, Some err) \<Rightarrow> (db2, res, Some err)
             | (db2, None) \<Rightarrow> HDelLoop db2 key fs (res + 1))
          else HDelLoop db1 key fs res)"

definition HDel :: "HashDB \<Rightarrow> bytes \<Rightarrow> bytes list \<Rightarrow> HashDB \<times> int \<times> error option" where
  "HDel db key fs =
     (case checkKeyValue db key [[]] of
        Some err \<Rightarrow> (db, 0, Some err)
      | None \<Rightarrow> if fs = [] then (db, 0, None) else HDelLoop db key fs 0)"

text \<open>The next \<open>store\<close> succeeds: there is an active file and the next write does not
  fail.\<close>

definition storeSucceeds :: "HashDB \<Rightarrow> bool" where
  "storeSucceeds db = (activeFile db \<noteq> None \<and> (case hio db of [] \<Rightarrow> True | ok # rest \<Rightarrow> ok))"

text \<open>A store as \<^verbatim>\<open>Open\<close> leaves it, for concrete inputs: an empty index, an empty active
  file, an input check that accepts everything and entries of 20 header bytes.\<close>

definition openHashDB :: "idxMode \<Rightarrow> bool list \<Rightarrow> HashDB" where
  "openHashDB mode sched =
     \<lparr>IdxMode = mode, indexes = Map.empty, activeFile = Some \<lparr>DBFileId = 0, DBFileOffset = 0\<rparr>,
      stored = [], hio = sched, checkKeyValue = (\<lambda>key vals. None),
      entrySize = (\<lambda>e. 20 + length (MetaKey (EntryMeta e)) + length (MetaValue (EntryMeta e))
                         + length (MetaExtra (EntryMeta e)))\<rparr>"

text \<open>A hash store that holds the field \<open>f\<close> of \<open>H\<close> and whose next write fails.\<close>

definition hashFailDB :: HashDB where
  "hashFailDB = fst (the (HSet (openHashDB KeyOnlyMemMode [True, False]) (bytesOf ''H'') (bytesOf ''f'') (bytesOf ''v'')))"

section \<open>The string index (MemoryBTree)\<close>

text \<open>
  \<^verbatim>\<open>MemoryBTree\<close> wraps the B-tree of the library \<^verbatim>\<open>github.com/google/btree\<close>. The
  library is not part of the repository; its tree is modelled by its contract, an
  ordered collection of items: a list that ascends strictly under the item's \<open>Less\<close>,
  where two items neither of which is less than the other count as the same item.
  \<open>ReplaceOrInsert\<close>, \<open>btreeGet\<close>, \<open>btreeDelete\<close>, \<open>btreeAscend\<close> and
  \<open>btreeDescend\<close> are the library's \<^verbatim>\<open>ReplaceOrInsert\<close>, \<^verbatim>\<open>Get\<close>, \<^verbatim>\<open>Delete\<close>,
  \<^verbatim>\<open>Ascend\<close> and \<^verbatim>\<open>Descend\<close>. A position is a pointer: \<open>None\<close> is nil. The
  callback of an iteration is a predicate, and the iteration returns the items it
  visited, in order. \<open>Compare\<close> is \<^verbatim>\<open>bytes.Compare\<close>.
\<close>

datatype 'p item = Item (itemKey: bytes) (itemPos: "'p option")

fun Compare :: "bytes \<Rightarrow> bytes \<Rightarrow> int" where
  "Compare [] [] = 0"
| "Compare [] (y # ys) = - 1"
| "Compare (x # xs) [] = 1"
| "Compare (x # xs) (y # ys) = (if x < y then - 1 else if y < x then 1 else Compare xs ys)"

definition Less :: "'p item \<Rightarrow> 'p item \<Rightarrow> bool" where
  "Less it bi = (Compare (itemKey it) (itemKey bi) < 0)"

type_synonym 'p MemoryBTree = "'p item list"

definition newBTree :: "'p MemoryBTree" where
  "newBTree = []"

fun ReplaceOrInsert :: "'p item list \<Rightarrow> 'p item \<Rightarrow> 'p item list \<times> 'p item option" where
  "ReplaceOrInsert [] it = ([it], None)"
| "ReplaceOrInsert (x # xs) it =
     (if Less it x then (it # x # xs, None)
      else if Less x it then (case ReplaceOrInsert xs it of (ys, old) \<Rightarrow> (x # ys, old))
      else (it # xs, Some x))"

fun btreeGet :: "'p item list \<Rightarrow> 'p item \<Rightarrow> 'p item option" where
  "btreeGet [] it = None"
| "btreeGet (x # xs) it =
     (if Less it x then None else if Less x it then btreeGet xs it else Some x)"

fun btreeDelete :: "'p item list \<Rightarrow> 'p item \<Rightarrow> 'p item list \<times> 'p item option" where
  "btreeDelete [] it = ([], None)"
| "btreeDelete (x # xs) it =
     (if Less it x then (x # xs, None)
      else if Less x it then (case btreeDelete xs it of (ys, old) \<Rightarrow> (x # ys, old))
      else (xs, Some x))"

fun btreeAscend :: "'p item list \<Rightarrow> ('p item \<Rightarrow> bool) \<Rightarrow> 'p item list" where
  "btreeAscend [] f = []"
| "btreeAscend (x # xs) f = x # (if f x then btreeAscend xs f else [])"

definition btreeDescend :: "'p item list \<Rightarrow> ('p item \<Rightarrow> bool) \<Rightarrow> 'p item list" where
  "btreeDescend t f = btreeAscend (rev t) f"

definition Put :: "'p MemoryBTree \<Rightarrow> bytes \<Rightarrow> 'p option \<Rightarrow> 'p MemoryBTree \<times> 'p option" where
  "Put mt key position =
     (case ReplaceOrInsert mt (Item key position) of
        (mt1, Some oldValue) \<Rightarrow> (mt1, itemPos oldValue)
      | (mt1, None) \<Rightarrow> (mt1, None))"

definition Get :: "'p MemoryBTree \<Rightarrow> bytes \<Rightarrow> 'p option" where
  "Get mt key = (case btreeGet mt (Item key None) of Some v \<Rightarrow> itemPos v | None \<Rightarrow> None)"

definition Delete :: "'p MemoryBTree \<Rightarrow> bytes \<Rightarrow> 'p MemoryBTree \<times> 'p option \<times> bool" where
  "Delete mt key =
     (case btreeDelete mt (Item key None) of
        (mt1, Some v) \<Rightarrow> (mt1, itemPos v, True)
      | (mt1, None) \<Rightarrow> (mt1, None, False))"

definition Size :: "'p MemoryBTree \<Rightarrow> nat" where
  "Size mt = length mt"

definition Ascend :: "'p MemoryBTree \<Rightarrow> (bytes \<Rightarrow> 'p option \<Rightarrow> bool) \<Rightarrow> (bytes \<times> 'p option) list" where
  "Ascend mt f = map (\<lambda>i. (itemKey i, itemPos i)) (btreeAscend mt (\<lambda>i. f (itemKey i) (itemPos i)))"

definition Descend :: "'p MemoryBTree \<Rightarrow> (bytes \<Rightarrow> 'p option \<Rightarrow> bool) \<Rightarrow> (bytes \<times> 'p option) list" where
  "Descend mt f = map (\<lambda>i. (itemKey i, itemPos i)) (btreeDescend mt (\<lambda>i. f (itemKey i) (itemPos i)))"

text \<open>A sequence of \<open>Put\<close>s; the invariant of the library's tree; the item stored
  under a key.\<close>

fun PutAll :: "'p MemoryBTree \<Rightarrow> (bytes \<times> 'p option) list \<Rightarrow> 'p MemoryBTree" where
  "PutAll mt [] = mt"
| "PutAll mt ((k, p) # kvs) = PutAll (fst (Put mt k p)) kvs"

definition sortedTree :: "'p MemoryBTree \<Rightarrow> bool" where
  "sortedTree mt = sorted_wrt Less mt"

fun lookup :: "'p item list \<Rightarrow> bytes \<Rightarrow> 'p item option" where
  "lookup [] k = None"
| "lookup (x # xs) k = (if itemKey x = k then Some x else lookup xs k)"

text \<open>The index after \<open>Put("b", 2)\<close>, \<open>Put("a", 1)\<close>, \<open>Put("ab", 3)\<close>.\<close>

definition exampleTree :: "nat MemoryBTree" where
  "exampleTree = PutAll newBTree [([98], Some 2), ([97], Some 1), ([97, 98], Some 3)]"

section \<open>The codec of list keys and list metadata\<close>

lemma Uint32_PutUint32: "Uint32 (PutUint32 v @ rest) = Some v"
proof -
  have "ucast (ucast v :: byte) OR push_bit 8 (ucast (ucast (drop_bit 8 v) :: byte))
      OR push_bit 16 (ucast (ucast (drop_bit 16 v) :: byte))
      OR push_bit 24 (ucast (ucast (drop_bit 24 v) :: byte)) = v"
  proof (rule bit_word_eqI)
    fix n
    assume "n < LENGTH(32)"
    then have n: "n < 32"
      by simp
    consider "n < 8" | "8 \<le> n" "n < 16" | "16 \<le> n" "n < 24" | "24 \<le> n"
      by linarith
    then show "bit (ucast (ucast v :: byte) OR push_bit 8 (ucast (ucast (drop_bit 8 v) :: byte))
        OR push_bit 16 (ucast (ucast (drop_bit 16 v) :: byte))
        OR push_bit 24 (ucast (ucast (drop_bit 24 v) :: byte)) :: u32) n = bit v n"
      using n by cases (auto simp: bit_simps)
  qed
  then show ?thesis
    by (simp add: PutUint32_def)
qed

lemma length_PutUint32 [simp]: "length (PutUint32 v) = 4"
  by (simp add: PutUint32_def)

lemma take4_PutUint32 [simp]: "take 4 (PutUint32 v @ rest) = PutUint32 v"
  by simp

lemma drop4_PutUint32 [simp]: "drop 4 (PutUint32 v @ rest) = rest"
  by simp

lemma Uint32_PutUint32_exact [simp]: "Uint32 (PutUint32 v) = Some v"
  using Uint32_PutUint32 [of v "[]"] by simp

lemma decode_encode: "decodeListKey (encodeListKey k seq) = Some (k, seq)"
  by (simp add: decodeListKey_def encodeListKey_def)

lemma encodeListKey_neq_key [simp]: "encodeListKey k seq \<noteq> k" "k \<noteq> encodeListKey k seq"
proof -
  have "length (encodeListKey k seq) \<noteq> length k"
    by (simp add: encodeListKey_def)
  then show "encodeListKey k seq \<noteq> k" "k \<noteq> encodeListKey k seq"
    by auto
qed

lemma PutUint32_inj: "PutUint32 a = PutUint32 b \<Longrightarrow> a = b"
  by (metis Uint32_PutUint32_exact option.inject)

lemma encodeListKey_eq_iff [simp]: "encodeListKey k a = encodeListKey k b \<longleftrightarrow> a = b"
  by (auto simp: encodeListKey_def dest: PutUint32_inj)

text \<open>What a successful append and the index update after it leave behind.\<close>

lemma writeLogEntry_ok:
  "appendSucceeds db \<Longrightarrow>
   writeLogEntry db ent = (db\<lparr>logfile := logfile db @ [ent], io := tl (io db)\<rparr>, Inr (length (logfile db)))"
  by (cases "io db") (auto simp: writeLogEntry_def appendSucceeds_def)

lemma writeLogEntry_fail:
  "\<not> appendSucceeds db \<Longrightarrow> writeLogEntry db ent = (db\<lparr>io := tl (io db)\<rparr>, Inl ErrIO)"
  by (cases "io db") (auto simp: writeLogEntry_def appendSucceeds_def)

lemma saveListMeta_ok:
  assumes "trees db key = Some idxTree" and "appendSucceeds db"
  shows "saveListMeta db key h t =
           (db\<lparr>logfile := logfile db @ [\<lparr>Key = key, Value = PutUint32 h @ PutUint32 t, Type = TypeListMeta\<rparr>],
               io := tl (io db),
               trees := (trees db)(key \<mapsto> idxTree(key \<mapsto> length (logfile db)))\<rparr>, None)"
  using assms by (simp add: saveListMeta_def Let_def writeLogEntry_ok updateIndexTree_def)

lemma saveListMeta_fail:
  "\<not> appendSucceeds db \<Longrightarrow> saveListMeta db key h t = (db\<lparr>io := tl (io db)\<rparr>, Some ErrIO)"
  by (simp add: saveListMeta_def Let_def writeLogEntry_fail)

lemma listMeta_read:
  assumes "idxTree key = Some pos" and "pos < length (logfile db)"
    and "Value (logfile db ! pos) = PutUint32 h @ PutUint32 t"
  shows "listMeta db idxTree key = Inr (h, t)"
  using assms by (simp add: listMeta_def getVal_def)

lemma listMeta_fresh:
  "idxTree key = None \<Longrightarrow> listMeta db idxTree key = Inr (initialListSeq, initialListSeq + 1)"
  by (simp add: listMeta_def getVal_def)

text \<open>
  Claim C8. The internal key of a list element is the sequence number in four
  little-endian bytes followed by the user key, and \<open>decodeListKey\<close> inverts
  \<open>encodeListKey\<close>. The metadata entry that \<open>saveListMeta\<close> appends carries the
  head sequence and the tail sequence in four little-endian bytes each, and
  \<open>listMeta\<close> reads the same pair back from the tree.
\<close>

theorem list_codec_roundtrip:
  assumes "trees db key = Some idxTree" and "appendSucceeds db"
  shows "encodeListKey k seq
           = [ucast seq, ucast (drop_bit 8 seq), ucast (drop_bit 16 seq), ucast (drop_bit 24 seq)] @ k
       \<and> decodeListKey (encodeListKey k seq) = Some (k, seq)
       \<and> (\<exists>db' idxTree'. saveListMeta db key headSeq tailSeq = (db', None)
             \<and> Value (last (logfile db')) = PutUint32 headSeq @ PutUint32 tailSeq
             \<and> Type (last (logfile db')) = TypeListMeta
             \<and> trees db' key = Some idxTree'
             \<and> listMeta db' idxTree' key = Inr (headSeq, tailSeq))"
proof -
  have "encodeListKey k seq
      = [ucast seq, ucast (drop_bit 8 seq), ucast (drop_bit 16 seq), ucast (drop_bit 24 seq)] @ k"
    by (simp add: encodeListKey_def PutUint32_def)
  moreover note decode_encode [of k seq]
  moreover have "\<exists>db' idxTree'. saveListMeta db key headSeq tailSeq = (db', None)
             \<and> Value (last (logfile db')) = PutUint32 headSeq @ PutUint32 tailSeq
             \<and> Type (last (logfile db')) = TypeListMeta
             \<and> trees db' key = Some idxTree'
             \<and> listMeta db' idxTree' key = Inr (headSeq, tailSeq)"
    by (simp add: saveListMeta_ok [OF assms] listMeta_read)
  ultimately show ?thesis
    by blast
qed

theorem list_codec_roundtrip_witness:
  "trees (fst (LPush (openDB []) [76] [])) [76] = Some Map.empty
   \<and> appendSucceeds (fst (LPush (openDB []) [76] []))
   \<and> encodeListKey [76] 258 = [2, 1, 0, 0, 76]
   \<and> decodeListKey [2, 1, 0, 0, 76] = Some ([76], 258)
   \<and> (\<exists>db' idxTree'. saveListMeta (fst (LPush (openDB []) [76] [])) [76] 7 9 = (db', None)
         \<and> Value (last (logfile db')) = [7, 0, 0, 0, 9, 0, 0, 0]
         \<and> listMeta db' idxTree' [76] = Inr (7, 9))"
proof -
  have t: "trees (fst (LPush (openDB []) [76] [])) [76] = Some Map.empty"
    by (simp add: LPush_def newTree_def openDB_def)
  have a: "appendSucceeds (fst (LPush (openDB []) [76] []))"
    by (simp add: LPush_def newTree_def openDB_def appendSucceeds_def)
  have e: "encodeListKey [76] 258 = [2, 1, 0, 0, 76]"
    by (simp add: encodeListKey_def PutUint32_def)
  have p: "PutUint32 7 @ PutUint32 9 = [7, 0, 0, 0, 9, 0, 0, 0]"
    by (simp add: PutUint32_def)
  show ?thesis
    using list_codec_roundtrip [OF t a, of "[76]" 258 7 9] t a e p by auto
qed

section \<open>Operations on a key that holds no list\<close>

text \<open>
  Claim C10. On a key for which no list exists, \<open>LPop\<close>, \<open>RPop\<close> and \<open>LIndex\<close>
  (at any index) return a nil value and a nil error, while \<open>LRange\<close>, \<open>LSet\<close>,
  \<open>LPushX\<close> and \<open>RPushX\<close> return the error \<open>ErrKeyNotFound\<close>; none of them
  changes the store.
\<close>

theorem absent_list_results:
  assumes "trees db k = None"
  shows "LPop db k = (db, Inr None) \<and> RPop db k = (db, Inr None) \<and> LIndex db k i = Inr None
       \<and> LRange db k start end' = Inl ErrKeyNotFound
       \<and> LSet db k i v = (db, Some ErrKeyNotFound)
       \<and> LPushX db k vals = (db, Some ErrKeyNotFound)
       \<and> RPushX db k vals = (db, Some ErrKeyNotFound)"
  using assms
  by (simp add: LPop_def RPop_def popInternal_def LIndex_def LRange_def LSet_def LPushX_def
      RPushX_def)

theorem absent_list_results_witness:
  "trees (openDB []) [76] = None
   \<and> LPop (openDB []) [76] = (openDB [], Inr None) \<and> RPop (openDB []) [76] = (openDB [], Inr None)
   \<and> LIndex (openDB []) [76] 0 = Inr None
   \<and> LRange (openDB []) [76] 0 (- 1) = Inl ErrKeyNotFound
   \<and> LSet (openDB []) [76] 0 [120] = (openDB [], Some ErrKeyNotFound)
   \<and> LPushX (openDB []) [76] [[120]] = (openDB [], Some ErrKeyNotFound)
   \<and> RPushX (openDB []) [76] [[120]] = (openDB [], Some ErrKeyNotFound)"
proof -
  have t: "trees (openDB []) [76] = None"
    by (simp add: openDB_def)
  show ?thesis
    using absent_list_results [OF t, of 0 0 "- 1" "[120]" "[[120]]"] t by simp
qed

section \<open>The end-to-end list scenario\<close>

text \<open>
  Claim C2. On an empty store whose appends all succeed, \<open>LPush("L","x")\<close>,
  \<open>LPush("L","y")\<close> and \<open>RPush("L","z")\<close> succeed and leave
  \<open>LRange("L",0,-1) = ["y","x","z"]\<close>; then \<open>LPop("L")\<close> returns \<open>"y"\<close>,
  \<open>RPop("L")\<close> returns \<open>"z"\<close>, and \<open>LLen("L")\<close> is 1.
\<close>

theorem list_scenario:
  "(let db0 = openDB [];
        (db1, e1) = LPush db0 (bytesOf ''L'') [bytesOf ''x''];
        (db2, e2) = LPush db1 (bytesOf ''L'') [bytesOf ''y''];
        (db3, e3) = RPush db2 (bytesOf ''L'') [bytesOf ''z''];
        (db4, r4) = LPop db3 (bytesOf ''L'');
        (db5, r5) = RPop db4 (bytesOf ''L'')
    in e1 = None \<and> e2 = None \<and> e3 = None
       \<and> LRange db3 (bytesOf ''L'') 0 (- 1) = Inr [bytesOf ''y'', bytesOf ''x'', bytesOf ''z'']
       \<and> r4 = Inr (Some (bytesOf ''y'')) \<and> r5 = Inr (Some (bytesOf ''z''))
       \<and> LLen db5 (bytesOf ''L'') = 1)"
  by (simp add: bytesOf_def LPush_def RPush_def newTree_def pushInternal_def listMeta_def
      getVal_def writeLogEntry_def updateIndexTree_def saveListMeta_def encodeListKey_def
      PutUint32_def initialListSeq_def openDB_def Let_def LRange_def listSequence_def
      popInternal_def LPop_def RPop_def LLen_def rangeLoop.simps)

section \<open>Logical indexes\<close>

lemmas eval_defs = bytesOf_def LPush_def RPush_def newTree_def pushInternal_def listMeta_def
      getVal_def writeLogEntry_def updateIndexTree_def saveListMeta_def encodeListKey_def
      PutUint32_def initialListSeq_def openDB_def Let_def LRange_def listSequence_def
      popInternal_def LPop_def RPop_def LLen_def rangeLoop.simps LIndex_def LSet_def






lemma listSequence_negative_index:
  assumes "0 \<le> i" and "i < uint (t - h - 1)"
  shows "listSequence h t (i - uint (t - h - 1)) = listSequence h t i"
proof -
  have "word_of_int (uint (t - h - 1) - i) = (t - h - 1) - (word_of_int i :: u32)"
    by simp
  then show ?thesis
    using assms by (simp add: listSequence_def)
qed

text \<open>
  Claim C6. For a list \<open>k\<close> and an index \<open>i\<close> with \<open>0 \<le> i < LLen(k)\<close>,
  \<open>LIndex(k, i)\<close> and \<open>LIndex(k, i - LLen(k))\<close> return the same result.
\<close>

theorem LIndex_negative_index:
  assumes "0 \<le> i" and "i < LLen db k"
  shows "LIndex db k i = LIndex db k (i - LLen db k)"
proof (cases "trees db k")
  case None
  with assms show ?thesis
    by (simp add: LLen_def)
next
  case (Some idxTree)
  show ?thesis
  proof (cases "listMeta db idxTree k")
    case (Inl err)
    with Some assms show ?thesis
      by (simp add: LLen_def)
  next
    case (Inr m)
    obtain h t where m: "m = (h, t)"
      by (cases m)
    from assms Some Inr m have len: "LLen db k = uint (t - h - 1)" and i: "i < uint (t - h - 1)"
      by (simp_all add: LLen_def)
    show ?thesis
      using Some Inr m listSequence_negative_index [OF assms(1) i]
      by (simp add: LIndex_def len Let_def)
  qed
qed

theorem LIndex_negative_index_witness:
  "(0::int) \<le> 0 \<and> 0 < LLen scenarioDB (bytesOf ''L'')
   \<and> LIndex scenarioDB (bytesOf ''L'') 0 = LIndex scenarioDB (bytesOf ''L'') (0 - LLen scenarioDB (bytesOf ''L''))
   \<and> LLen scenarioDB (bytesOf ''L'') = 3
   \<and> LIndex scenarioDB (bytesOf ''L'') 0 = Inr (Some (bytesOf ''y''))"
proof -
  have n: "LLen scenarioDB (bytesOf ''L'') = 3"
    by (simp add: scenarioDB_def eval_defs)
  have i: "(0::int) \<le> 0" "0 < LLen scenarioDB (bytesOf ''L'')"
    by (simp_all add: n)
  have v: "LIndex scenarioDB (bytesOf ''L'') 0 = Inr (Some (bytesOf ''y''))"
    by (simp add: scenarioDB_def eval_defs)
  show ?thesis
    using LIndex_negative_index [OF i] i n v by simp
qed

section \<open>The list metadata in reachable states\<close>

lemma getVal_io [simp]: "getVal (db\<lparr>io := x\<rparr>) idxTree k = getVal db idxTree k"
  by (simp add: getVal_def split: option.splits)

lemma getVal_trees [simp]: "getVal (db\<lparr>trees := x\<rparr>) idxTree k = getVal db idxTree k"
  by (simp add: getVal_def split: option.splits)

lemma listMeta_io [simp]: "listMeta (db\<lparr>io := x\<rparr>) idxTree k = listMeta db idxTree k"
  by (simp add: listMeta_def)

lemma listMeta_trees [simp]: "listMeta (db\<lparr>trees := x\<rparr>) idxTree k = listMeta db idxTree k"
  by (simp add: listMeta_def)

lemma listMeta_append:
  "(\<forall>pos. idxTree k = Some pos \<longrightarrow> pos < length (logfile db)) \<Longrightarrow>
   listMeta (db\<lparr>logfile := logfile db @ [e]\<rparr>) idxTree k = listMeta db idxTree k"
  by (auto simp: listMeta_def getVal_def nth_append split: option.splits)

lemma listMeta_other_key:
  "ik \<noteq> k \<Longrightarrow> listMeta db (idxTree(ik := v)) k = listMeta db idxTree k"
  by (simp add: listMeta_def getVal_def)

lemma metaInv_io [simp]: "metaInv P (db\<lparr>io := x\<rparr>) = metaInv P db"
  by (simp add: metaInv_def)

lemma listMeta_same:
  "logfile db' = logfile db \<Longrightarrow> listMeta db' idxTree k = listMeta db idxTree k"
  by (simp add: listMeta_def getVal_def split: option.splits)

lemma metaInv_same:
  "metaInv P db \<Longrightarrow> logfile db' = logfile db \<Longrightarrow> trees db' = trees db \<Longrightarrow> metaInv P db'"
  unfolding metaInv_def by (simp add: listMeta_same [of db' db])

lemma metaInv_weaken: "metaInv P db \<Longrightarrow> (\<And>h t. P h t \<Longrightarrow> Q h t) \<Longrightarrow> metaInv Q db"
  unfolding metaInv_def by blast

lemma metaInv_append: 
  assumes "metaInv P db"
  shows "metaInv P (db\<lparr>logfile := logfile db @ [e]\<rparr>)"
  unfolding metaInv_def
proof (intro allI impI)
  fix k idxTree
  assume "trees (db\<lparr>logfile := logfile db @ [e]\<rparr>) k = Some idxTree"
  then have t: "trees db k = Some idxTree"
    by simp
  with assms have v: "\<forall>pos. idxTree k = Some pos \<longrightarrow> pos < length (logfile db)"
    and m: "\<exists>h t. listMeta db idxTree k = Inr (h, t) \<and> P h t"
    unfolding metaInv_def by blast+
  from v have "\<forall>pos. idxTree k = Some pos \<longrightarrow> pos < length (logfile (db\<lparr>logfile := logfile db @ [e]\<rparr>))"
    by auto
  moreover from v m have "\<exists>h t. listMeta (db\<lparr>logfile := logfile db @ [e]\<rparr>) idxTree k = Inr (h, t) \<and> P h t"
    by (simp add: listMeta_append)
  ultimately show "(\<forall>pos. idxTree k = Some pos \<longrightarrow> pos < length (logfile (db\<lparr>logfile := logfile db @ [e]\<rparr>)))
       \<and> (\<exists>h t. listMeta (db\<lparr>logfile := logfile db @ [e]\<rparr>) idxTree k = Inr (h, t) \<and> P h t)"
    by blast
qed

lemma metaInv_elem:
  assumes "metaInv P db" and "trees db k = Some idxTree" and "ik \<noteq> k"
  shows "metaInv P (db\<lparr>trees := (trees db)(k \<mapsto> idxTree(ik := v))\<rparr>)"
  using assms unfolding metaInv_def
  by (auto simp: listMeta_other_key)

lemma metaInv_meta:
  assumes "metaInv P db" and "trees db k = Some idxTree" and "P h t"
  shows "metaInv P (db\<lparr>logfile := logfile db @ [\<lparr>Key = k, Value = PutUint32 h @ PutUint32 t, Type = TypeListMeta\<rparr>],
                       trees := (trees db)(k \<mapsto> idxTree(k \<mapsto> length (logfile db)))\<rparr>)"
    (is "metaInv P ?db'")
proof -
  have a: "metaInv P (db\<lparr>logfile := logfile db @ [\<lparr>Key = k, Value = PutUint32 h @ PutUint32 t, Type = TypeListMeta\<rparr>]\<rparr>)"
    (is "metaInv P ?db1")
    using assms(1) by (rule metaInv_append)
  show ?thesis
    unfolding metaInv_def
  proof (intro allI impI)
    fix k' idxTree'
    assume t': "trees ?db' k' = Some idxTree'"
    show "(\<forall>pos. idxTree' k' = Some pos \<longrightarrow> pos < length (logfile ?db'))
       \<and> (\<exists>h t. listMeta ?db' idxTree' k' = Inr (h, t) \<and> P h t)"
    proof (cases "k' = k")
      case True
      with t' have "idxTree' = idxTree(k \<mapsto> length (logfile db))"
        by simp
      with True assms(3) show ?thesis
        by (simp add: listMeta_read)
    next
      case False
      with t' have "trees ?db1 k' = Some idxTree'"
        by simp
      with a have "(\<forall>pos. idxTree' k' = Some pos \<longrightarrow> pos < length (logfile ?db1))
       \<and> (\<exists>h t. listMeta ?db1 idxTree' k' = Inr (h, t) \<and> P h t)"
        unfolding metaInv_def by blast
      then show ?thesis
        by simp
    qed
  qed
qed

lemma metaInv_newTree:
  assumes "metaInv P db" and "P initialListSeq (initialListSeq + 1)"
  shows "metaInv P (newTree db k)"
  using assms unfolding metaInv_def newTree_def
  by (auto simp: listMeta_fresh)

lemma writeLogEntry_trees [simp]: "trees (fst (writeLogEntry db ent)) = trees db"
  by (cases "appendSucceeds db") (simp_all add: writeLogEntry_ok writeLogEntry_fail)

lemma writeLogEntry_inv: "metaInv P db \<Longrightarrow> metaInv P (fst (writeLogEntry db ent))"
proof (cases "appendSucceeds db")
  case True
  assume "metaInv P db"
  then have "metaInv P (db\<lparr>logfile := logfile db @ [ent]\<rparr>)"
    by (rule metaInv_append)
  then show ?thesis
    by (rule metaInv_same) (simp_all add: writeLogEntry_ok True)
next
  case False
  assume "metaInv P db"
  with False show ?thesis
    by (simp add: writeLogEntry_fail)
qed

lemma updateIndexTree_elem_inv:
  "metaInv P db \<Longrightarrow> Key ent \<noteq> k \<Longrightarrow> metaInv P (fst (updateIndexTree db k ent pos))"
  by (auto simp: updateIndexTree_def fun_upd_def [symmetric] split: option.splits
      intro: metaInv_elem [where v = "Some pos" for pos])

lemma saveListMeta_inv:
  assumes "metaInv P db" and "P h t"
  shows "metaInv P (fst (saveListMeta db k h t))"
proof (cases "appendSucceeds db")
  case False
  with assms show ?thesis
    by (simp add: saveListMeta_fail)
next
  case True
  show ?thesis
  proof (cases "trees db k")
    case None
    show ?thesis
      using metaInv_append [OF assms(1)]
      by (rule metaInv_same)
        (simp_all add: saveListMeta_def Let_def writeLogEntry_ok updateIndexTree_def None True)
  next
    case (Some idxTree)
    show ?thesis
      using metaInv_meta [OF assms(1) Some assms(2)]
      by (rule metaInv_same) (simp_all add: saveListMeta_ok [OF Some True])
  qed
qed

lemma push_core:
  assumes "metaInv Q db" and "Key ent \<noteq> k" and "Q h t"
  shows "metaInv Q (fst (case writeLogEntry db ent of
                           (db1, Inl err) \<Rightarrow> (db1, Some err)
                         | (db1, Inr valuePos) \<Rightarrow>
                             (case updateIndexTree db1 k ent valuePos of
                                (db2, Some err) \<Rightarrow> (db2, Some err)
                              | (db2, None) \<Rightarrow> saveListMeta db2 k h t)))"
proof -
  obtain db1 r1 where w: "writeLogEntry db ent = (db1, r1)"
    by (cases "writeLogEntry db ent")
  have q1: "metaInv Q db1"
    using writeLogEntry_inv [OF assms(1), of ent] w by simp
  show ?thesis
  proof (cases r1)
    case (Inl err)
    with w q1 show ?thesis
      by simp
  next
    case (Inr valuePos)
    obtain db2 r2 where u: "updateIndexTree db1 k ent valuePos = (db2, r2)"
      by (cases "updateIndexTree db1 k ent valuePos")
    have q2: "metaInv Q db2"
      using updateIndexTree_elem_inv [OF q1 assms(2), of valuePos] u by simp
    show ?thesis
    proof (cases r2)
      case None
      with w Inr u show ?thesis
        using saveListMeta_inv [OF q2 assms(3), of k] by simp
    next
      case (Some err)
      with w Inr u q2 show ?thesis
        by simp
    qed
  qed
qed

lemma pushInternal_inv:
  assumes inv: "metaInv P db"
    and step: "\<And>h t. P h t \<Longrightarrow> Q h t \<and> Q (h - 1) t \<and> Q h (t + 1)"
  shows "metaInv Q (fst (pushInternal db k v isLeft))"
proof -
  have q: "metaInv Q db"
    using inv step by (blast intro: metaInv_weaken)
  show ?thesis
  proof (cases "trees db k")
    case None
    with q show ?thesis
      by (simp add: pushInternal_def)
  next
    case (Some idxTree)
    from inv Some obtain h t where m: "listMeta db idxTree k = Inr (h, t)" and p: "P h t"
      unfolding metaInv_def by blast
    from step [OF p] have qs: "Q (h - 1) t" "Q h (t + 1)"
      by blast+
    show ?thesis
    proof (cases isLeft)
      case True
      have "Key \<lparr>Key = encodeListKey k h, Value = v, Type = TypePut\<rparr> \<noteq> k"
        by simp
      from push_core [OF q this qs(1)] True show ?thesis
        by (simp add: pushInternal_def Some m Let_def)
    next
      case False
      have "Key \<lparr>Key = encodeListKey k t, Value = v, Type = TypePut\<rparr> \<noteq> k"
        by simp
      from push_core [OF q this qs(2)] False show ?thesis
        by (simp add: pushInternal_def Some m Let_def)
    qed
  qed
qed

lemma pop_core:
  assumes "metaInv P db" and "trees db k = Some idxTree" and "ik \<noteq> k" and "P h t"
  shows "metaInv P (fst (case writeLogEntry db ent of
                           (db1, Inl err) \<Rightarrow> (db1, Inl err)
                         | (db1, Inr pos) \<Rightarrow>
                             (case saveListMeta (db1\<lparr>trees := (trees db1)(k \<mapsto> idxTree(ik := None))\<rparr>) k h t of
                                (db3, Some err) \<Rightarrow> (db3, Inl err)
                              | (db3, None) \<Rightarrow> (db3, Inr (Some val)))))"
proof -
  obtain db1 r1 where w: "writeLogEntry db ent = (db1, r1)"
    by (cases "writeLogEntry db ent")
  have q1: "metaInv P db1"
    using writeLogEntry_inv [OF assms(1), of ent] w by simp
  have t1: "trees db1 k = Some idxTree"
    using writeLogEntry_trees [of db ent] w assms(2) by simp
  show ?thesis
  proof (cases r1)
    case (Inl err)
    with w q1 show ?thesis
      by simp
  next
    case (Inr pos)
    have q2: "metaInv P (db1\<lparr>trees := (trees db1)(k \<mapsto> idxTree(ik := None))\<rparr>)"
      using q1 t1 assms(3) by (rule metaInv_elem)
    obtain db3 r3 where s: "saveListMeta (db1\<lparr>trees := (trees db1)(k \<mapsto> idxTree(ik := None))\<rparr>) k h t = (db3, r3)"
      by (cases "saveListMeta (db1\<lparr>trees := (trees db1)(k \<mapsto> idxTree(ik := None))\<rparr>) k h t")
    have "metaInv P db3"
      using saveListMeta_inv [OF q2 assms(4), of k] s by simp
    with w Inr s show ?thesis
      by (cases r3) simp_all
  qed
qed

lemma popInternal_inv:
  assumes inv: "metaInv P db"
    and init: "P initialListSeq (initialListSeq + 1)"
    and step: "\<And>h t. P h t \<Longrightarrow> t - h - 1 \<noteq> 0 \<Longrightarrow> P (h + 1) t \<and> P h (t - 1)"
  shows "metaInv P (fst (popInternal db k isLeft))"
proof (cases "trees db k")
  case None
  with inv show ?thesis
    by (simp add: popInternal_def)
next
  case (Some idxTree)
  from inv Some obtain h t where m: "listMeta db idxTree k = Inr (h, t)" and p: "P h t"
    unfolding metaInv_def by blast
  show ?thesis
  proof (cases "t - h - 1 = 0")
    case True
    with inv saveListMeta_inv [OF inv init, of k] show ?thesis
      by (simp add: popInternal_def Some m)
  next
    case False
    from step [OF p False] have ps: "P (h + 1) t" "P h (t - 1)"
      by blast+
    show ?thesis
    proof (cases isLeft)
      case True
      show ?thesis
      proof (cases "getVal db idxTree (encodeListKey k (h + 1))")
        case (Inl err)
        with inv True False show ?thesis
          by (simp add: popInternal_def Some m Let_def)
      next
        case (Inr val)
        have "encodeListKey k (h + 1) \<noteq> k"
          by simp
        from pop_core [OF inv Some this ps(1)] Inr True False show ?thesis
          by (simp add: popInternal_def Some m Let_def)
      qed
    next
      case isRight: False
      show ?thesis
      proof (cases "getVal db idxTree (encodeListKey k (t - 1))")
        case (Inl err)
        with inv isRight False show ?thesis
          by (simp add: popInternal_def Some m Let_def)
      next
        case (Inr val)
        have "encodeListKey k (t - 1) \<noteq> k"
          by simp
        from pop_core [OF inv Some this ps(2)] Inr isRight False show ?thesis
          by (simp add: popInternal_def Some m Let_def)
      qed
    qed
  qed
qed

lemma LSet_inv:
  assumes inv: "metaInv P db"
  shows "metaInv P (fst (LSet db k i v))"
proof (cases "trees db k")
  case None
  with inv show ?thesis
    by (simp add: LSet_def)
next
  case (Some idxTree)
  from inv Some obtain h t where m: "listMeta db idxTree k = Inr (h, t)"
    unfolding metaInv_def by blast
  show ?thesis
  proof (cases "listSequence h t i \<ge> t \<or> listSequence h t i \<le> h")
    case True
    with inv show ?thesis
      by (auto simp: LSet_def Some m Let_def)
  next
    case False
    obtain db1 r1 where w: "writeLogEntry db \<lparr>Key = encodeListKey k (listSequence h t i), Value = v, Type = TypePut\<rparr> = (db1, r1)"
      by (cases "writeLogEntry db \<lparr>Key = encodeListKey k (listSequence h t i), Value = v, Type = TypePut\<rparr>")
    have q1: "metaInv P db1"
      using writeLogEntry_inv [OF inv, of "\<lparr>Key = encodeListKey k (listSequence h t i), Value = v, Type = TypePut\<rparr>"] w
      by simp
    show ?thesis
    proof (cases r1)
      case (Inl err)
      with False w q1 show ?thesis
        by (auto simp: LSet_def Some m Let_def)
    next
      case (Inr pos)
      have "metaInv P (fst (updateIndexTree db1 k \<lparr>Key = encodeListKey k (listSequence h t i), Value = v, Type = TypePut\<rparr> pos))"
        using q1 by (rule updateIndexTree_elem_inv) simp
      with False w Inr show ?thesis
        by (auto simp: LSet_def Some m Let_def)
    qed
  qed
qed

lemma seqFamily_mono:
  assumes "seqFamily R B" and "R m h t" and "m + d \<le> B"
  shows "R (m + d) h t"
  using assms(3)
proof (induction d)
  case 0
  with assms(2) show ?case by simp
next
  case (Suc d)
  then have "R (m + d) h t" and "m + d < B"
    by simp_all
  with assms(1) have "R (Suc (m + d)) h t"
    unfolding seqFamily_def by blast
  then show ?case by simp
qed

lemma pushAll_inv:
  assumes fam: "seqFamily R B"
  shows "metaInv (R n) db \<Longrightarrow> n + length vals \<le> B \<Longrightarrow>
         metaInv (R (n + length vals)) (fst (pushAll db k vals isLeft))"
proof (induction vals arbitrary: n db)
  case Nil
  then show ?case by simp
next
  case (Cons v vals)
  from Cons.prems(2) have lt: "n < B"
    by simp
  have step: "\<And>h t. R n h t \<Longrightarrow> R (Suc n) h t \<and> R (Suc n) (h - 1) t \<and> R (Suc n) h (t + 1)"
    using fam lt unfolding seqFamily_def by blast
  obtain db1 r where p: "pushInternal db k v isLeft = (db1, r)"
    by (cases "pushInternal db k v isLeft")
  have q1: "metaInv (R (Suc n)) db1"
    using pushInternal_inv [of "R n" db "R (Suc n)" k v isLeft, OF Cons.prems(1) step] p by simp
  show ?case
  proof (cases r)
    case None
    from Cons.IH [OF q1] Cons.prems(2) have "metaInv (R (Suc n + length vals)) (fst (pushAll db1 k vals isLeft))"
      by simp
    with p None show ?thesis by simp
  next
    case (Some err)
    have "metaInv (R (Suc n + length vals)) db1"
    proof (rule metaInv_weaken [OF q1])
      fix h t
      assume "R (Suc n) h t"
      then show "R (Suc n + length vals) h t"
        using seqFamily_mono [OF fam, of "Suc n" h t "length vals"] Cons.prems(2) by simp
    qed
    with p Some show ?thesis by simp
  qed
qed

lemma newTree_inv: "seqFamily R B \<Longrightarrow> metaInv (R n) db \<Longrightarrow> metaInv (R n) (newTree db k)"
  by (rule metaInv_newTree) (simp_all add: seqFamily_def)

lemma pop_inv: "seqFamily R B \<Longrightarrow> metaInv (R n) db \<Longrightarrow> metaInv (R n) (fst (popInternal db k isLeft))"
  by (rule popInternal_inv) (auto simp: seqFamily_def)

lemma LMove_inv:
  assumes fam: "seqFamily R B" and inv: "metaInv (R n) db" and lt: "n < B"
  shows "metaInv (R (Suc n)) (fst (LMove db src dst srcIsLeft dstIsLeft))"
proof -
  obtain db1 r where p: "popInternal db src srcIsLeft = (db1, r)"
    by (cases "popInternal db src srcIsLeft")
  have q1: "metaInv (R n) db1"
    using pop_inv [OF fam inv, of src srcIsLeft] p by simp
  have step: "\<And>h t. R n h t \<Longrightarrow> R (Suc n) h t \<and> R (Suc n) (h - 1) t \<and> R (Suc n) h (t + 1)"
    using fam lt unfolding seqFamily_def by blast
  have q1': "metaInv (R (Suc n)) db1"
    using q1 step by (blast intro: metaInv_weaken)
  show ?thesis
  proof (cases r)
    case (Inl err)
    with p q1' show ?thesis by (simp add: LMove_def)
  next
    case (Inr res)
    show ?thesis
    proof (cases res)
      case None
      with p Inr q1' show ?thesis by (simp add: LMove_def)
    next
      case (Some popValue)
      have "metaInv (R (Suc n)) (fst (pushInternal (newTree db1 dst) dst popValue dstIsLeft))"
        using newTree_inv [OF fam q1] step by (rule pushInternal_inv)
      with p Inr Some show ?thesis
        by (cases "pushInternal (newTree db1 dst) dst popValue dstIsLeft")
          (auto simp: LMove_def split: option.splits)
    qed
  qed
qed

lemma applyOp_inv:
  assumes fam: "seqFamily R B" and inv: "metaInv (R n) db" and le: "n + pushed op \<le> B"
  shows "metaInv (R (n + pushed op)) (applyOp op db)"
proof (cases op)
  case (OpLPush k vals)
  with pushAll_inv [OF fam newTree_inv [OF fam inv], of vals k k True] le show ?thesis
    by (simp add: LPush_def)
next
  case (OpRPush k vals)
  with pushAll_inv [OF fam newTree_inv [OF fam inv], of vals k k False] le show ?thesis
    by (simp add: RPush_def)
next
  case (OpLPushX k vals)
  have "metaInv (R (n + length vals)) db"
    using inv seqFamily_mono [OF fam, of n _ _ "length vals"] le OpLPushX
    by (auto intro: metaInv_weaken)
  with pushAll_inv [OF fam inv, of vals k True] le OpLPushX show ?thesis
    by (simp add: LPushX_def)
next
  case (OpRPushX k vals)
  have "metaInv (R (n + length vals)) db"
    using inv seqFamily_mono [OF fam, of n _ _ "length vals"] le OpRPushX
    by (auto intro: metaInv_weaken)
  with pushAll_inv [OF fam inv, of vals k False] le OpRPushX show ?thesis
    by (simp add: RPushX_def)
next
  case (OpLPop k)
  with pop_inv [OF fam inv, of k True] show ?thesis
    by (simp add: LPop_def)
next
  case (OpRPop k)
  with pop_inv [OF fam inv, of k False] show ?thesis
    by (simp add: RPop_def)
next
  case (OpLSet k i v)
  with LSet_inv [OF inv, of k i v] show ?thesis
    by simp
next
  case (OpLMove src dst srcIsLeft dstIsLeft)
  with LMove_inv [OF fam inv, of src dst srcIsLeft dstIsLeft] le show ?thesis
    by simp
qed

lemma runOps_inv:
  assumes fam: "seqFamily R B"
  shows "metaInv (R n) db \<Longrightarrow> n + pushedTotal ops \<le> B \<Longrightarrow>
         metaInv (R (n + pushedTotal ops)) (runOps db ops)"
proof (induction ops arbitrary: n db)
  case Nil
  then show ?case by simp
next
  case (Cons op ops)
  have "metaInv (R (n + pushed op)) (applyOp op db)"
    using fam Cons.prems(1) by (rule applyOp_inv) (use Cons.prems(2) in simp)
  from Cons.IH [OF this] Cons.prems(2) show ?case
    by (simp add: add.assoc)
qed

lemma metaInv_openDB: "metaInv P (openDB sched)"
  by (simp add: metaInv_def openDB_def)

lemma seqFamily_True: "seqFamily (\<lambda>m h t. True) B"
  by (simp add: seqFamily_def)

lemma uint_initial: "uint initialListSeq = 2 ^ 31" "uint (initialListSeq + 1) = 2 ^ 31 + 1"
  by (simp_all add: initialListSeq_def)

lemma uint_dec: "1 \<le> uint (h :: u32) \<Longrightarrow> uint (h - 1) = uint h - 1"
  using uint_sub_lem [where x = h and y = 1] by simp

lemma uint_inc: "uint (t :: u32) < 2 ^ 32 - 1 \<Longrightarrow> uint (t + 1) = uint t + 1"
  using uint_add_lem [where x = t and y = 1] by simp

lemma size_nonzero_gap:
  assumes "t - h - 1 \<noteq> (0 :: u32)" and "uint h < uint t"
  shows "uint h + 1 < uint t"
proof (rule ccontr)
  assume "\<not> uint h + 1 < uint t"
  with assms(2) have "uint t = uint h + 1"
    by simp
  then have "word_of_int (uint t) = (word_of_int (uint h + 1) :: u32)"
    by simp
  then have "t = h + 1"
    by simp
  with assms(1) show False
    by simp
qed

lemma seqFamily_inBounds: "seqFamily inBounds (2 ^ 31 - 2)"
  unfolding seqFamily_def
proof (intro conjI allI impI)
  fix m
  show "inBounds m initialListSeq (initialListSeq + 1)"
    by (simp add: inBounds_def uint_initial)
next
  fix m :: nat and h t :: u32
  assume b: "inBounds m h t" and m: "m < 2 ^ 31 - 2"
  from b m have h1: "1 \<le> uint h" and t1: "uint t < 2 ^ 32 - 1"
    by (simp_all add: inBounds_def)
  from b show "inBounds (Suc m) h t"
    by (simp add: inBounds_def)
  from b show "inBounds (Suc m) (h - 1) t"
    by (simp add: inBounds_def uint_dec [OF h1])
  from b show "inBounds (Suc m) h (t + 1)"
    by (simp add: inBounds_def uint_inc [OF t1])
next
  fix m :: nat and h t :: u32
  assume b: "inBounds m h t" and nz: "t - h - 1 \<noteq> 0"
  from b have lt: "uint h < uint t"
    by (simp add: inBounds_def)
  from size_nonzero_gap [OF nz lt] have gap: "uint h + 1 < uint t" .
  have hb: "uint h < 2 ^ 32 - 1"
    using gap uint_lt2p [of t] by simp
  have tb: "1 \<le> uint t"
    using gap uint_ge_0 [of h] by linarith
  from b gap show "inBounds m (h + 1) t"
    by (simp add: inBounds_def uint_inc [OF hb])
  from b gap show "inBounds m h (t - 1)"
    by (simp add: inBounds_def uint_dec [OF tb])
qed

lemma uint_size:
  assumes "uint (h :: u32) < uint t"
  shows "uint (t - h - 1) = uint t - uint h - 1"
proof -
  have a: "uint (t - h) = uint t - uint h"
    using assms uint_sub_lem [where x = t and y = h] by simp
  with assms have "uint (1 :: u32) \<le> uint (t - h)"
    by simp
  then have "uint (t - h - 1) = uint (t - h) - uint (1 :: u32)"
    using uint_sub_lem [where x = "t - h" and y = 1] by blast
  with a show ?thesis
    by simp
qed

lemma reachable_meta:
  assumes "trees (runOps (openDB sched) ops) k = Some idxTree"
  shows "\<exists>h t. listMeta (runOps (openDB sched) ops) idxTree k = Inr (h, t)
           \<and> (pushedTotal ops < 2 ^ 31 - 1 \<longrightarrow> uint h < uint t)"
proof -
  have "metaInv (\<lambda>h t. True) (runOps (openDB sched) ops)"
    using runOps_inv [OF seqFamily_True [of "pushedTotal ops"], where n = 0 and db = "openDB sched" and ops = ops]
    by (simp add: metaInv_openDB)
  with assms obtain h t where m: "listMeta (runOps (openDB sched) ops) idxTree k = Inr (h, t)"
    unfolding metaInv_def by blast
  have "uint h < uint t" if "pushedTotal ops < 2 ^ 31 - 1"
  proof -
    have "metaInv (inBounds (0 + pushedTotal ops)) (runOps (openDB sched) ops)"
      using seqFamily_inBounds metaInv_openDB by (rule runOps_inv) (use that in simp)
    with assms m show ?thesis
      unfolding metaInv_def inBounds_def by fastforce
  qed
  with m show ?thesis
    by blast
qed

text \<open>
  Claim C3, as the code has it. In every state reached from an empty store by list
  operations (with any outcome of the appends), a tree without a metadata entry reads
  as \<open>headSeq = 2^31\<close>, \<open>tailSeq = 2^31 + 1\<close>, \<open>LLen\<close> of an absent list is 0, and
  for a list that exists \<open>listMeta\<close> succeeds and \<open>LLen\<close> returns the 32-bit
  difference \<open>tailSeq - headSeq - 1\<close> read as unsigned, hence \<open>\<ge> 0\<close>. When fewer than
  \<open>2^31 - 1\<close> values were pushed in all, no sequence number has wrapped around:
  \<open>tailSeq \<ge> headSeq + 1\<close> and \<open>LLen = tailSeq - headSeq - 1\<close> hold over the integers.
\<close>

theorem list_meta_invariant:
  "listMeta (runOps (openDB sched) ops) Map.empty k = Inr (2 ^ 31, 2 ^ 31 + 1)
   \<and> (trees (runOps (openDB sched) ops) k = None \<longrightarrow> LLen (runOps (openDB sched) ops) k = 0)
   \<and> (\<forall>idxTree. trees (runOps (openDB sched) ops) k = Some idxTree \<longrightarrow>
         (\<exists>h t. listMeta (runOps (openDB sched) ops) idxTree k = Inr (h, t)
            \<and> LLen (runOps (openDB sched) ops) k = uint (t - h - 1)
            \<and> 0 \<le> LLen (runOps (openDB sched) ops) k
            \<and> (pushedTotal ops < 2 ^ 31 - 1 \<longrightarrow>
                 uint h + 1 \<le> uint t \<and> LLen (runOps (openDB sched) ops) k = uint t - uint h - 1)))"
proof (intro conjI allI impI)
  show "listMeta (runOps (openDB sched) ops) Map.empty k = Inr (2 ^ 31, 2 ^ 31 + 1)"
    by (simp add: listMeta_fresh initialListSeq_def)
next
  assume "trees (runOps (openDB sched) ops) k = None"
  then show "LLen (runOps (openDB sched) ops) k = 0"
    by (simp add: LLen_def)
next
  fix idxTree
  assume t: "trees (runOps (openDB sched) ops) k = Some idxTree"
  from reachable_meta [OF t] obtain h t' where
    m: "listMeta (runOps (openDB sched) ops) idxTree k = Inr (h, t')"
    and b: "pushedTotal ops < 2 ^ 31 - 1 \<longrightarrow> uint h < uint t'"
    by blast
  have len: "LLen (runOps (openDB sched) ops) k = uint (t' - h - 1)"
    by (simp add: LLen_def t m)
  have "pushedTotal ops < 2 ^ 31 - 1 \<longrightarrow>
          uint h + 1 \<le> uint t' \<and> LLen (runOps (openDB sched) ops) k = uint t' - uint h - 1"
    using b len by (auto simp: uint_size)
  with m len show "\<exists>h t. listMeta (runOps (openDB sched) ops) idxTree k = Inr (h, t)
            \<and> LLen (runOps (openDB sched) ops) k = uint (t - h - 1)
            \<and> 0 \<le> LLen (runOps (openDB sched) ops) k
            \<and> (pushedTotal ops < 2 ^ 31 - 1 \<longrightarrow>
                 uint h + 1 \<le> uint t \<and> LLen (runOps (openDB sched) ops) k = uint t - uint h - 1)"
    by auto
qed

lemmas run_defs = applyOp.simps runOps.simps pushedTotal.simps pushed.simps pushAll.simps

theorem list_meta_invariant_witness:
  "pushedTotal [OpRPush (bytesOf ''L'') [bytesOf ''x''], OpLPop (bytesOf ''L'')] < 2 ^ 31 - 1
   \<and> trees drainedDB (bytesOf ''L'') = Some (the (trees drainedDB (bytesOf ''L'')))
   \<and> listMeta drainedDB (the (trees drainedDB (bytesOf ''L''))) (bytesOf ''L'') = Inr (2 ^ 31 + 1, 2 ^ 31 + 2)
   \<and> uint (2 ^ 31 + 1 :: u32) + 1 \<le> uint (2 ^ 31 + 2 :: u32)
   \<and> LLen drainedDB (bytesOf ''L'') = uint (2 ^ 31 + 2 :: u32) - uint (2 ^ 31 + 1 :: u32) - 1
   \<and> LLen drainedDB (bytesOf ''L'') = 0"
proof -
  have p: "pushedTotal [OpRPush (bytesOf ''L'') [bytesOf ''x''], OpLPop (bytesOf ''L'')] < 2 ^ 31 - 1"
    by simp
  have t: "trees drainedDB (bytesOf ''L'') = Some (the (trees drainedDB (bytesOf ''L'')))"
    by (simp add: drainedDB_def eval_defs)
  have m: "listMeta drainedDB (the (trees drainedDB (bytesOf ''L''))) (bytesOf ''L'') = Inr (2 ^ 31 + 1, 2 ^ 31 + 2)"
    by (simp add: drainedDB_def eval_defs)
  from list_meta_invariant [of "[]" "[OpRPush (bytesOf ''L'') [bytesOf ''x''], OpLPop (bytesOf ''L'')]" "bytesOf ''L''"]
  have "\<exists>h t. listMeta drainedDB (the (trees drainedDB (bytesOf ''L''))) (bytesOf ''L'') = Inr (h, t)
            \<and> LLen drainedDB (bytesOf ''L'') = uint (t - h - 1)
            \<and> uint h + 1 \<le> uint t \<and> LLen drainedDB (bytesOf ''L'') = uint t - uint h - 1"
    using t p unfolding drainedDB_def [symmetric] by blast
  with m p t show ?thesis
    by auto
qed

section \<open>Sequence wrap-around and the reset of the metadata\<close>

lemma pushInternal_right_ok:
  assumes t: "trees db k = Some idxTree" and m: "listMeta db idxTree k = Inr (h, t)" and io: "io db = []"
  shows "\<exists>db' idxTree'. pushInternal db k v False = (db', None) \<and> trees db' k = Some idxTree'
           \<and> listMeta db' idxTree' k = Inr (h, t + 1) \<and> io db' = []"
proof -
  let ?ent = "\<lparr>Key = encodeListKey k t, Value = v, Type = TypePut\<rparr>"
  let ?db2 = "db\<lparr>logfile := logfile db @ [?ent], io := [],
                 trees := (trees db)(k \<mapsto> idxTree(encodeListKey k t \<mapsto> length (logfile db)))\<rparr>"
  have a: "appendSucceeds db"
    by (simp add: appendSucceeds_def io)
  have a2: "appendSucceeds ?db2"
    by (simp add: appendSucceeds_def)
  have t2: "trees ?db2 k = Some (idxTree(encodeListKey k t \<mapsto> length (logfile db)))"
    by simp
  have p: "pushInternal db k v False = saveListMeta ?db2 k h (t + 1)"
    using assms by (simp add: pushInternal_def Let_def writeLogEntry_ok [OF a] updateIndexTree_def)
  show ?thesis
    unfolding p saveListMeta_ok [OF t2 a2]
    by (simp add: listMeta_def getVal_def nth_append)
qed

lemma pushAll_right_replicate:
  "trees db k = Some idxTree \<Longrightarrow> listMeta db idxTree k = Inr (h, t) \<Longrightarrow> io db = [] \<Longrightarrow>
   \<exists>db' idxTree'. pushAll db k (replicate n v) False = (db', None) \<and> trees db' k = Some idxTree'
      \<and> listMeta db' idxTree' k = Inr (h, t + of_nat n)"
proof (induction n arbitrary: db idxTree t)
  case 0
  then show ?case by simp
next
  case (Suc n)
  from pushInternal_right_ok [OF Suc.prems, of v] obtain db1 idxTree1 where
    p: "pushInternal db k v False = (db1, None)" and t1: "trees db1 k = Some idxTree1"
    and m1: "listMeta db1 idxTree1 k = Inr (h, t + 1)" and io1: "io db1 = []"
    by blast
  from Suc.IH [OF t1 m1 io1] p show ?case
    by (simp add: ac_simps)
qed

text \<open>
  Claim C3 as stated fails once a sequence number wraps around: after \<open>2^31 - 1\<close>
  values are pushed to the right of a new list, \<open>tailSeq\<close> is 0 and \<open>headSeq\<close> is
  \<open>2^31\<close>, so \<open>tailSeq \<ge> headSeq + 1\<close> is false, while \<open>LLen\<close> returns
  \<open>2^31 - 1\<close>, which is not the integer \<open>tailSeq - headSeq - 1\<close>.
\<close>

theorem sequence_wraps_counterexample:
  "listMeta overflowDB (the (trees overflowDB (bytesOf ''L''))) (bytesOf ''L'') = Inr (2 ^ 31, 0)
   \<and> \<not> uint (2 ^ 31 :: u32) + 1 \<le> uint (0 :: u32)
   \<and> LLen overflowDB (bytesOf ''L'') = 2 ^ 31 - 1
   \<and> LLen overflowDB (bytesOf ''L'') \<noteq> uint (0 :: u32) - uint (2 ^ 31 :: u32) - 1"
proof -
  let ?db0 = "newTree (openDB []) (bytesOf ''L'')"
  have t0: "trees ?db0 (bytesOf ''L'') = Some Map.empty"
    by (simp add: newTree_def openDB_def)
  have m0: "listMeta ?db0 Map.empty (bytesOf ''L'') = Inr (2 ^ 31, 2 ^ 31 + 1)"
    by (simp add: listMeta_fresh initialListSeq_def)
  have io0: "io ?db0 = []"
    by (simp add: newTree_def openDB_def)
  from pushAll_right_replicate [OF t0 m0 io0, of "2 ^ 31 - 1" "bytesOf ''x''"]
  obtain db' idxTree' where
    p: "pushAll ?db0 (bytesOf ''L'') (replicate (2 ^ 31 - 1) (bytesOf ''x'')) False = (db', None)"
    and t': "trees db' (bytesOf ''L'') = Some idxTree'"
    and m': "listMeta db' idxTree' (bytesOf ''L'') = Inr (2 ^ 31, 2 ^ 31 + 1 + of_nat (2 ^ 31 - 1))"
    by blast
  have w: "(2 ^ 31 + 1 + of_nat (2 ^ 31 - 1) :: u32) = 0"
    by simp
  have db: "overflowDB = db'"
    by (simp only: overflowDB_def RPush_def p fst_conv)
  have m: "listMeta overflowDB (the (trees overflowDB (bytesOf ''L''))) (bytesOf ''L'') = Inr (2 ^ 31, 0)"
    using m' t' by (simp only: db w option.sel)
  have l: "LLen overflowDB (bytesOf ''L'') = 2 ^ 31 - 1"
    using m t' by (simp add: LLen_def db)
  show ?thesis
    using m l by simp
qed

text \<open>
  Claim C4, as the code has it. The metadata is reset by a pop that finds the list
  empty, not by the pop that empties it: in every reachable state, a pop (from either
  end) on a list of length zero whose append succeeds returns nil and leaves the
  metadata at the initial values \<open>headSeq = 2^31\<close>, \<open>tailSeq = 2^31 + 1\<close>.
\<close>

theorem pop_on_empty_resets_meta:
  assumes t: "trees (runOps (openDB sched) ops) k = Some idxTree"
    and len: "LLen (runOps (openDB sched) ops) k = 0"
    and a: "appendSucceeds (runOps (openDB sched) ops)"
  shows "\<exists>db' idxTree'. popInternal (runOps (openDB sched) ops) k isLeft = (db', Inr None)
           \<and> trees db' k = Some idxTree'
           \<and> listMeta db' idxTree' k = Inr (2 ^ 31, 2 ^ 31 + 1)
           \<and> LLen db' k = 0"
proof -
  let ?db = "runOps (openDB sched) ops"
  from reachable_meta [OF t] obtain h tl where m: "listMeta ?db idxTree k = Inr (h, tl)"
    by blast
  from len have "uint (tl - h - 1) = 0"
    by (simp add: LLen_def t m)
  then have z: "tl - h - 1 = 0"
    by (simp only: unsigned_eq_0_iff)
  show ?thesis
  proof (cases "h \<noteq> initialListSeq \<or> tl \<noteq> initialListSeq + 1")
    case True
    with z have "popInternal ?db k isLeft = (fst (saveListMeta ?db k initialListSeq (initialListSeq + 1)), Inr None)"
      by (simp add: popInternal_def t m)
    then show ?thesis
      unfolding saveListMeta_ok [OF t a]
      by (simp add: listMeta_read LLen_def initialListSeq_def)
  next
    case False
    with z have "popInternal ?db k isLeft = (?db, Inr None)"
      by (simp add: popInternal_def t m)
    with False t m show ?thesis
      by (simp add: LLen_def initialListSeq_def)
  qed
qed

theorem pop_on_empty_resets_meta_witness:
  "trees drainedDB (bytesOf ''L'') = Some (the (trees drainedDB (bytesOf ''L'')))
   \<and> LLen drainedDB (bytesOf ''L'') = 0
   \<and> appendSucceeds drainedDB
   \<and> snd (LPop drainedDB (bytesOf ''L'')) = Inr None
   \<and> listMeta (fst (LPop drainedDB (bytesOf ''L''))) (the (trees (fst (LPop drainedDB (bytesOf ''L''))) (bytesOf ''L'')))
        (bytesOf ''L'') = Inr (2 ^ 31, 2 ^ 31 + 1)"
proof -
  have t: "trees (runOps (openDB []) [OpRPush (bytesOf ''L'') [bytesOf ''x''], OpLPop (bytesOf ''L'')]) (bytesOf ''L'')
         = Some (the (trees drainedDB (bytesOf ''L'')))"
    by (simp add: drainedDB_def eval_defs)
  have l: "LLen (runOps (openDB []) [OpRPush (bytesOf ''L'') [bytesOf ''x''], OpLPop (bytesOf ''L'')]) (bytesOf ''L'') = 0"
    by (simp add: eval_defs)
  have a: "appendSucceeds (runOps (openDB []) [OpRPush (bytesOf ''L'') [bytesOf ''x''], OpLPop (bytesOf ''L'')])"
    by (simp add: eval_defs appendSucceeds_def)
  from pop_on_empty_resets_meta [OF t l a, of True]
  show ?thesis
    using t l a unfolding drainedDB_def [symmetric] LPop_def
    by auto
qed

text \<open>
  Claim C4 as stated fails right after the pop that removes the last element: after
  \<open>RPush("L","x")\<close> and \<open>LPop("L")\<close> the list has length zero and its metadata
  is \<open>(2^31 + 1, 2^31 + 2)\<close>, not the initial values.
\<close>

theorem last_pop_keeps_meta_counterexample:
  "snd (LPop (fst (RPush (openDB []) (bytesOf ''L'') [bytesOf ''x''])) (bytesOf ''L'')) = Inr (Some (bytesOf ''x''))
   \<and> LLen drainedDB (bytesOf ''L'') = 0
   \<and> listMeta drainedDB (the (trees drainedDB (bytesOf ''L''))) (bytesOf ''L'') = Inr (2 ^ 31 + 1, 2 ^ 31 + 2)
   \<and> (2 ^ 31 + 1, 2 ^ 31 + 2) \<noteq> (2 ^ 31 :: u32, 2 ^ 31 + 1 :: u32)"
  by (simp add: drainedDB_def eval_defs)

section \<open>Failed appends and the hash results\<close>

lemma store_indexes [simp]: "indexes (fst (store db e)) = indexes db"
  by (auto simp: store_def Let_def split: sum.splits list.splits)

lemma store_fields [simp]:
  "IdxMode (fst (store db e)) = IdxMode db" "entrySize (fst (store db e)) = entrySize db"
  "checkKeyValue (fst (store db e)) = checkKeyValue db"
  by (auto simp: store_def Let_def split: sum.splits list.splits)

lemma fieldExists_cong: "indexes db' = indexes db \<Longrightarrow> fieldExists db' key field = fieldExists db key field"
  by (simp add: fieldExists_def)

lemma HSetIndexer_result:
  "HSetIndexer db idx onlyNotExist = (db', res) \<Longrightarrow>
   MetaKey (IndexerMeta idx) = key \<Longrightarrow> MetaExtra (IndexerMeta idx) = field \<Longrightarrow>
   (res = 1 \<or> res = 0) \<and> (res = 1 \<longleftrightarrow> \<not> fieldExists db key field)
   \<and> (res = 1 \<longrightarrow> fieldExists db' key field)
   \<and> (fieldExists db key field \<longrightarrow> fieldExists db' key field)"
  by (auto simp: HSetIndexer_def Let_def fieldExists_def split: option.splits if_splits)

lemma setHashIndexer_result:
  assumes "setHashIndexer db (NewEntry key val field mark) onlyNotExist = (db', res)"
  shows "(res = 1 \<or> res = 0) \<and> (res = 1 \<longrightarrow> \<not> fieldExists db key field \<and> fieldExists db' key field)
       \<and> (fieldExists db key field \<longrightarrow> fieldExists db' key field \<and> res = 0)
       \<and> (res = 0 \<and> \<not> fieldExists db key field \<longrightarrow> \<not> fieldExists db' key field)"
proof (cases "activeFile db")
  case None
  with assms show ?thesis
    by (auto simp: setHashIndexer_def getActiveFile_def)
next
  case (Some f)
  with assms show ?thesis
    by (auto simp: setHashIndexer_def getActiveFile_def NewEntry_def Let_def
        dest!: HSetIndexer_result [where key = key and field = field])
qed

lemma HSetNx_iff:
  "fst (snd (HSetNx db key field val)) = 1 \<longleftrightarrow>
     \<not> fieldExists db key field \<and> fieldExists (fst (HSetNx db key field val)) key field"
proof (cases "checkKeyValue db key [val]")
  case (Some err)
  then show ?thesis
    by (simp add: HSetNx_def)
next
  case None
  obtain db1 res where s: "setHashIndexer db (NewEntry key val field HashHSet) True = (db1, res)"
    by (cases "setHashIndexer db (NewEntry key val field HashHSet) True")
  note r = setHashIndexer_result [OF s]
  show ?thesis
  proof (cases "res = 1")
    case True
    obtain db2 err where st: "store db1 (NewEntry key val field HashHSet) = (db2, err)"
      by (cases "store db1 (NewEntry key val field HashHSet)")
    have "indexes db2 = indexes db1"
      using store_indexes [of db1 "NewEntry key val field HashHSet"] st by simp
    then have "fieldExists db2 key field = fieldExists db1 key field"
      by (rule fieldExists_cong)
    with None s True st r show ?thesis
      by (cases err) (simp_all add: HSetNx_def Let_def)
  next
    case False
    with None s r show ?thesis
      by (auto simp: HSetNx_def Let_def)
  qed
qed

lemma HSet_returns:
  assumes "HSet db key field val = Some (db', res, err)"
  shows "(res = 1 \<or> res = 0)
       \<and> (res = 1 \<longleftrightarrow> \<not> fieldExists db key field \<and> fieldExists db' key field)
       \<and> (fieldExists db key field \<longrightarrow> res = 0)
       \<and> (err \<noteq> None \<longrightarrow> indexes db' = indexes db)"
proof (cases "checkKeyValue db key [val]")
  case (Some e)
  with assms show ?thesis
    by (auto simp: HSet_def)
next
  case None
  let ?same = "(if IdxMode db = KeyValueMemMode
                       then (case HGet db key field of None \<Rightarrow> None | Some oldVal \<Rightarrow> Some (oldVal = val))
                       else Some False)"
  show ?thesis
  proof (cases ?same)
    case none: None
    with None assms show ?thesis
      by (simp add: HSet_def Let_def)
  next
    case (Some same)
    show ?thesis
    proof (cases same)
      case True
      with None Some assms show ?thesis
        by (auto simp: HSet_def Let_def)
    next
      case False
      obtain db1 e1 where st: "store db (NewEntry key val field HashHSet) = (db1, e1)"
        by (cases "store db (NewEntry key val field HashHSet)")
      have i1: "indexes db1 = indexes db"
        using store_indexes [of db "NewEntry key val field HashHSet"] st by simp
      then have f1: "fieldExists db1 key field = fieldExists db key field"
        by (rule fieldExists_cong)
      show ?thesis
      proof (cases e1)
        case (Some e)
        with None \<open>?same = Some same\<close> False st assms i1 show ?thesis
          by (auto simp: HSet_def Let_def dest: fieldExists_cong)
      next
        case none1: None
        obtain db2 r2 where s: "setHashIndexer db1 (NewEntry key val field HashHSet) False = (db2, r2)"
          by (cases "setHashIndexer db1 (NewEntry key val field HashHSet) False")
        note r = setHashIndexer_result [OF s]
        from None \<open>?same = Some same\<close> False st none1 s assms have "db' = db2" "res = r2" "err = None"
          by (simp_all add: HSet_def Let_def)
        with r f1 show ?thesis
          by auto
      qed
    qed
  qed
qed

lemma store_ok:
  "storeSucceeds db \<Longrightarrow> \<exists>db1. store db e = (db1, None) \<and> activeFile db1 \<noteq> None \<and> indexes db1 = indexes db"
  by (auto simp: storeSucceeds_def store_def getActiveFile_def Let_def split: list.splits)

lemma store_fail:
  "\<not> storeSucceeds db \<Longrightarrow> \<exists>db1 err. store db e = (db1, Some err) \<and> indexes db1 = indexes db"
  by (cases "activeFile db")
    (auto simp: storeSucceeds_def store_def getActiveFile_def Let_def split: list.splits)

lemma setHashIndexer_active:
  assumes "activeFile db \<noteq> None"
  shows "\<exists>db'. setHashIndexer db (NewEntry key val field mark) onlyNotExist
             = (db', if fieldExists db key field then 0 else 1)
           \<and> (\<not> onlyNotExist \<or> \<not> fieldExists db key field \<longrightarrow> fieldExists db' key field)"
  using assms
  by (auto simp: setHashIndexer_def getActiveFile_def NewEntry_def Let_def HSetIndexer_def
      fieldExists_def split: option.splits)

lemma HSet_succeeds:
  assumes c: "checkKeyValue db key [val] = None"
    and m: "IdxMode db = KeyOnlyMemMode \<or> (\<exists>old. HGet db key field = Some old \<and> old \<noteq> val)"
    and s: "storeSucceeds db"
  shows "\<exists>db'. HSet db key field val = Some (db', (if fieldExists db key field then 0 else 1), None)
           \<and> fieldExists db' key field"
proof -
  from store_ok [OF s, of "NewEntry key val field HashHSet"] obtain db1 where
    st: "store db (NewEntry key val field HashHSet) = (db1, None)"
    and a1: "activeFile db1 \<noteq> None" and i1: "indexes db1 = indexes db"
    by blast
  from setHashIndexer_active [OF a1, of key val field HashHSet False] obtain db2 where
    sh: "setHashIndexer db1 (NewEntry key val field HashHSet) False
           = (db2, if fieldExists db1 key field then 0 else 1)"
    and f2: "fieldExists db2 key field"
    by auto
  have f1: "fieldExists db1 key field = fieldExists db key field"
    using i1 by (rule fieldExists_cong)
  have "HSet db key field val = Some (db2, (if fieldExists db key field then 0 else 1), None)"
    using c m st sh f1 by (auto simp: HSet_def Let_def)
  with f2 show ?thesis
    by blast
qed

text \<open>
  The results where the hash operations return. \<open>HSetNx\<close> returns 1 if and only if
  the field did not exist before and is in the index afterwards, and with an accepted
  input and an active file it returns 1 on a new field and 0 on an existing one.
  Whenever \<open>HSet\<close> returns, its result is 1 if and only if the field was newly
  inserted, and 0 when the field existed. In key-only mode, and in key-value mode on a
  field whose stored value differs, \<open>HSet\<close> with an accepted input and a successful
  store returns 1 for a new field and 0 for an overwrite, and the field is in the index
  afterwards. (\<open>HSet\<close> on a new field in key-value mode is the subject of the last
  section.)
\<close>

theorem hash_set_results:
  "(fst (snd (HSetNx db key field val)) = 1 \<longleftrightarrow>
      \<not> fieldExists db key field \<and> fieldExists (fst (HSetNx db key field val)) key field)
   \<and> (checkKeyValue db key [val] = None \<and> activeFile db \<noteq> None \<longrightarrow>
        fst (snd (HSetNx db key field val)) = (if fieldExists db key field then 0 else 1))
   \<and> (\<forall>db' res err. HSet db key field val = Some (db', res, err) \<longrightarrow>
        (res = 1 \<or> res = 0)
        \<and> (res = 1 \<longleftrightarrow> \<not> fieldExists db key field \<and> fieldExists db' key field)
        \<and> (fieldExists db key field \<longrightarrow> res = 0))
   \<and> (checkKeyValue db key [val] = None
        \<and> (IdxMode db = KeyOnlyMemMode \<or> (\<exists>old. HGet db key field = Some old \<and> old \<noteq> val))
        \<and> storeSucceeds db \<longrightarrow>
        (\<exists>db'. HSet db key field val = Some (db', (if fieldExists db key field then 0 else 1), None)
           \<and> fieldExists db' key field))"
proof (intro conjI allI impI)
  show "fst (snd (HSetNx db key field val)) = 1 \<longleftrightarrow>
      \<not> fieldExists db key field \<and> fieldExists (fst (HSetNx db key field val)) key field"
    by (rule HSetNx_iff)
next
  assume "checkKeyValue db key [val] = None \<and> activeFile db \<noteq> None"
  then have c: "checkKeyValue db key [val] = None" and a: "activeFile db \<noteq> None"
    by simp_all
  from setHashIndexer_active [OF a, of key val field HashHSet True] obtain db1 where
    s: "setHashIndexer db (NewEntry key val field HashHSet) True
          = (db1, if fieldExists db key field then 0 else 1)"
    by blast
  obtain db2 err where st: "store db1 (NewEntry key val field HashHSet) = (db2, err)"
    by (cases "store db1 (NewEntry key val field HashHSet)")
  show "fst (snd (HSetNx db key field val)) = (if fieldExists db key field then 0 else 1)"
    using c s st by (cases err; cases "fieldExists db key field") (simp_all add: HSetNx_def Let_def)
next
  fix db' res err
  assume h: "HSet db key field val = Some (db', res, err)"
  from HSet_returns [OF h] show "res = 1 \<or> res = 0"
    and "res = 1 \<longleftrightarrow> \<not> fieldExists db key field \<and> fieldExists db' key field"
    by blast+
  assume "fieldExists db key field"
  with HSet_returns [OF h] show "res = 0"
    by blast
next
  assume "checkKeyValue db key [val] = None
        \<and> (IdxMode db = KeyOnlyMemMode \<or> (\<exists>old. HGet db key field = Some old \<and> old \<noteq> val))
        \<and> storeSucceeds db"
  then show "\<exists>db'. HSet db key field val = Some (db', (if fieldExists db key field then 0 else 1), None)
           \<and> fieldExists db' key field"
    using HSet_succeeds by blast
qed

lemma pushInternal_fail:
  "\<not> appendSucceeds db \<Longrightarrow>
   trees (fst (pushInternal db k v isLeft)) = trees db \<and> snd (pushInternal db k v isLeft) \<noteq> None"
  by (auto simp: pushInternal_def Let_def writeLogEntry_fail split: option.splits sum.splits)

lemma pushAll_fail: "\<not> appendSucceeds db \<Longrightarrow> trees (fst (pushAll db k vals isLeft)) = trees db"
proof (cases vals)
  case Nil
  then show ?thesis by simp
next
  case (Cons v rest)
  assume "\<not> appendSucceeds db"
  from pushInternal_fail [OF this, of k v isLeft] Cons show ?thesis
    by (cases "pushInternal db k v isLeft") auto
qed

lemma popInternal_fail: "\<not> appendSucceeds db \<Longrightarrow> trees (fst (popInternal db k isLeft)) = trees db"
  by (auto simp: popInternal_def Let_def writeLogEntry_fail saveListMeta_fail
      split: option.splits sum.splits)

lemma LSet_fail: "\<not> appendSucceeds db \<Longrightarrow> trees (fst (LSet db k i v)) = trees db"
  by (auto simp: LSet_def Let_def writeLogEntry_fail split: option.splits sum.splits)

lemma newTree_existing: "trees db k \<noteq> None \<Longrightarrow> newTree db k = db"
  by (auto simp: newTree_def)

lemma HSet_store_fails:
  assumes "\<not> storeSucceeds db" and "checkKeyValue db key [val] = None"
    and "IdxMode db = KeyOnlyMemMode \<or> (\<exists>old. HGet db key field = Some old \<and> old \<noteq> val)"
  shows "\<exists>db' err. HSet db key field val = Some (db', 0, Some err) \<and> indexes db' = indexes db"
proof -
  from store_fail [OF assms(1), of "NewEntry key val field HashHSet"] obtain db1 err where
    "store db (NewEntry key val field HashHSet) = (db1, Some err)" and "indexes db1 = indexes db"
    by blast
  with assms(2,3) show ?thesis
    by (auto simp: HSet_def Let_def)
qed

text \<open>
  Claim C1, as the code has it. When the next append fails, \<open>LPushX\<close>, \<open>RPushX\<close>,
  \<open>LPop\<close>, \<open>RPop\<close> and \<open>LSet\<close> leave the list index unchanged, and so do \<open>LPush\<close>
  and \<open>RPush\<close> on a key that holds a list: a list operation updates its tree only after
  the append of the entry it indexes succeeded. \<open>HSet\<close> stores before it updates the
  index: whenever it returns an error the hash index is unchanged, and when the store
  fails it returns that error with result 0.
\<close>

theorem failed_append_keeps_index:
  "(\<not> appendSucceeds db \<longrightarrow>
      trees (fst (LPushX db k vals)) = trees db \<and> trees (fst (RPushX db k vals)) = trees db
      \<and> (trees db k \<noteq> None \<longrightarrow>
            trees (fst (LPush db k vals)) = trees db \<and> trees (fst (RPush db k vals)) = trees db)
      \<and> trees (fst (LPop db k)) = trees db \<and> trees (fst (RPop db k)) = trees db
      \<and> trees (fst (LSet db k i v)) = trees db)
   \<and> (\<forall>hdb' res err. HSet hdb key field val = Some (hdb', res, err) \<longrightarrow> err \<noteq> None \<longrightarrow>
         indexes hdb' = indexes hdb)
   \<and> (\<not> storeSucceeds hdb \<and> checkKeyValue hdb key [val] = None
        \<and> (IdxMode hdb = KeyOnlyMemMode \<or> (\<exists>old. HGet hdb key field = Some old \<and> old \<noteq> val)) \<longrightarrow>
        (\<exists>hdb' err. HSet hdb key field val = Some (hdb', 0, Some err) \<and> indexes hdb' = indexes hdb))"
proof (intro conjI allI impI)
  assume f: "\<not> appendSucceeds db"
  show "trees (fst (LPushX db k vals)) = trees db" "trees (fst (RPushX db k vals)) = trees db"
    using pushAll_fail [OF f] by (simp_all add: LPushX_def RPushX_def)
  show "trees (fst (LPop db k)) = trees db" "trees (fst (RPop db k)) = trees db"
    using popInternal_fail [OF f] by (simp_all add: LPop_def RPop_def)
  show "trees (fst (LSet db k i v)) = trees db"
    using f by (rule LSet_fail)
  assume "trees db k \<noteq> None"
  then show "trees (fst (LPush db k vals)) = trees db" "trees (fst (RPush db k vals)) = trees db"
    using pushAll_fail [OF f] by (simp_all add: LPush_def RPush_def newTree_existing)
next
  fix hdb' res err
  assume "HSet hdb key field val = Some (hdb', res, err)" and "err \<noteq> None"
  with HSet_returns show "indexes hdb' = indexes hdb"
    by blast
next
  assume "\<not> storeSucceeds hdb \<and> checkKeyValue hdb key [val] = None
        \<and> (IdxMode hdb = KeyOnlyMemMode \<or> (\<exists>old. HGet hdb key field = Some old \<and> old \<noteq> val))"
  then show "\<exists>hdb' err. HSet hdb key field val = Some (hdb', 0, Some err) \<and> indexes hdb' = indexes hdb"
    using HSet_store_fails by blast
qed

lemmas hash_defs = openHashDB_def HSet_def HSetNx_def HDel_def HDelLoop.simps store_def
  getActiveFile_def setHashIndexer_def HSetIndexer_def hashHDel_def hashHGet_def HGet_def
  NewEntry_def fieldExists_def storeSucceeds_def Let_def bytesOf_def

theorem failed_append_keeps_index_witness:
  "\<not> appendSucceeds (scenarioDB\<lparr>io := [False]\<rparr>)
   \<and> trees (scenarioDB\<lparr>io := [False]\<rparr>) (bytesOf ''L'') \<noteq> None
   \<and> snd (RPush (scenarioDB\<lparr>io := [False]\<rparr>) (bytesOf ''L'') [bytesOf ''w'']) = Some ErrIO
   \<and> trees (fst (RPush (scenarioDB\<lparr>io := [False]\<rparr>) (bytesOf ''L'') [bytesOf ''w''])) = trees scenarioDB
   \<and> snd (LPop (scenarioDB\<lparr>io := [False]\<rparr>) (bytesOf ''L'')) = Inl ErrIO
   \<and> trees (fst (LPop (scenarioDB\<lparr>io := [False]\<rparr>) (bytesOf ''L''))) = trees scenarioDB
   \<and> snd (LSet (scenarioDB\<lparr>io := [False]\<rparr>) (bytesOf ''L'') 0 (bytesOf ''w'')) = Some ErrIO
   \<and> trees (fst (LSet (scenarioDB\<lparr>io := [False]\<rparr>) (bytesOf ''L'') 0 (bytesOf ''w''))) = trees scenarioDB
   \<and> \<not> storeSucceeds (openHashDB KeyOnlyMemMode [False])
   \<and> (\<exists>hdb'. HSet (openHashDB KeyOnlyMemMode [False]) (bytesOf ''H'') (bytesOf ''f'') (bytesOf ''v'')
                = Some (hdb', 0, Some ErrIO)
          \<and> indexes hdb' = indexes (openHashDB KeyOnlyMemMode [False]))"
proof -
  let ?db = "scenarioDB\<lparr>io := [False]\<rparr>"
  let ?hdb = "openHashDB KeyOnlyMemMode [False]"
  have a: "\<not> appendSucceeds ?db"
    by (simp add: appendSucceeds_def)
  have t: "trees ?db (bytesOf ''L'') \<noteq> None"
    by (simp add: scenarioDB_def eval_defs)
  have e1: "snd (RPush ?db (bytesOf ''L'') [bytesOf ''w'']) = Some ErrIO"
    by (simp add: scenarioDB_def eval_defs)
  have e2: "snd (LPop ?db (bytesOf ''L'')) = Inl ErrIO"
    by (simp add: scenarioDB_def eval_defs)
  have e3: "snd (LSet ?db (bytesOf ''L'') 0 (bytesOf ''w'')) = Some ErrIO"
    by (simp add: scenarioDB_def eval_defs)
  have s: "\<not> storeSucceeds ?hdb"
    by (simp add: storeSucceeds_def openHashDB_def)
  have c: "checkKeyValue ?hdb (bytesOf ''H'') [bytesOf ''v''] = None" "IdxMode ?hdb = KeyOnlyMemMode"
    by (simp_all add: openHashDB_def)
  have h: "HSet ?hdb (bytesOf ''H'') (bytesOf ''f'') (bytesOf ''v'')
             = Some (?hdb\<lparr>hio := []\<rparr>, 0, Some ErrIO)"
    by (simp add: hash_defs)
  from failed_append_keeps_index [of ?db "bytesOf ''L''" "[bytesOf ''w'']" 0 "bytesOf ''w''"
      ?hdb "bytesOf ''H''" "bytesOf ''f''" "bytesOf ''v''"] a t s c
  have "trees (fst (RPush ?db (bytesOf ''L'') [bytesOf ''w''])) = trees ?db"
    and "trees (fst (LPop ?db (bytesOf ''L''))) = trees ?db"
    and "trees (fst (LSet ?db (bytesOf ''L'') 0 (bytesOf ''w''))) = trees ?db"
    and "\<exists>hdb' err. HSet ?hdb (bytesOf ''H'') (bytesOf ''f'') (bytesOf ''v'') = Some (hdb', 0, Some err)
           \<and> indexes hdb' = indexes ?hdb"
    by blast+
  with a t e1 e2 e3 s h show ?thesis
    by simp
qed

text \<open>
  Claim C1 as stated fails for an operation that appends twice: on a list that holds
  \<open>x\<close>, with the element append of \<open>RPush("L","y")\<close> succeeding and its metadata
  append failing, \<open>RPush\<close> returns the IO error and the tree holds the new element.
\<close>

theorem meta_append_failure_counterexample:
  "snd (RPush failDB (bytesOf ''L'') [bytesOf ''y'']) = Some ErrIO
   \<and> trees (fst (RPush failDB (bytesOf ''L'') [bytesOf ''y''])) \<noteq> trees failDB"
proof -
  have e: "snd (RPush failDB (bytesOf ''L'') [bytesOf ''y'']) = Some ErrIO"
    by (simp add: failDB_def eval_defs)
  have a: "the (trees (fst (RPush failDB (bytesOf ''L'') [bytesOf ''y''])) (bytesOf ''L''))
             (encodeListKey (bytesOf ''L'') (2 ^ 31 + 2)) = Some 2"
    by (simp add: failDB_def eval_defs)
  have b: "the (trees failDB (bytesOf ''L'')) (encodeListKey (bytesOf ''L'') (2 ^ 31 + 2)) = None"
    by (simp add: failDB_def eval_defs)
  from a b have "trees (fst (RPush failDB (bytesOf ''L'') [bytesOf ''y''])) \<noteq> trees failDB"
    by auto
  with e show ?thesis
    by simp
qed

theorem hash_set_results_witness:
  "checkKeyValue (openHashDB KeyOnlyMemMode []) (bytesOf ''H'') [bytesOf ''v1''] = None
   \<and> IdxMode (openHashDB KeyOnlyMemMode []) = KeyOnlyMemMode
   \<and> storeSucceeds (openHashDB KeyOnlyMemMode [])
   \<and> \<not> fieldExists (openHashDB KeyOnlyMemMode []) (bytesOf ''H'') (bytesOf ''f'')
   \<and> fst (snd (HSetNx (openHashDB KeyOnlyMemMode []) (bytesOf ''H'') (bytesOf ''f'') (bytesOf ''v1''))) = 1
   \<and> fieldExists (fst (HSetNx (openHashDB KeyOnlyMemMode []) (bytesOf ''H'') (bytesOf ''f'') (bytesOf ''v1'')))
        (bytesOf ''H'') (bytesOf ''f'')
   \<and> (\<exists>db'. HSet (openHashDB KeyOnlyMemMode []) (bytesOf ''H'') (bytesOf ''f'') (bytesOf ''v1'')
               = Some (db', 1, None)
         \<and> fieldExists db' (bytesOf ''H'') (bytesOf ''f'')
         \<and> (\<exists>db''. HSet db' (bytesOf ''H'') (bytesOf ''f'') (bytesOf ''v2'') = Some (db'', 0, None))
         \<and> fst (snd (HSetNx db' (bytesOf ''H'') (bytesOf ''f'') (bytesOf ''v2''))) = 0)"
proof -
  let ?db = "openHashDB KeyOnlyMemMode []"
  have c: "checkKeyValue ?db (bytesOf ''H'') [bytesOf ''v1''] = None"
    and m: "IdxMode ?db = KeyOnlyMemMode" and s: "storeSucceeds ?db"
    and a: "activeFile ?db \<noteq> None"
    and n: "\<not> fieldExists ?db (bytesOf ''H'') (bytesOf ''f'')"
    by (simp_all add: openHashDB_def storeSucceeds_def fieldExists_def)
  note r = hash_set_results [of ?db "bytesOf ''H''" "bytesOf ''f''" "bytesOf ''v1''"]
  from r c a n have nx: "fst (snd (HSetNx ?db (bytesOf ''H'') (bytesOf ''f'') (bytesOf ''v1''))) = 1"
    by simp
  with r have nxe: "fieldExists (fst (HSetNx ?db (bytesOf ''H'') (bytesOf ''f'') (bytesOf ''v1'')))
        (bytesOf ''H'') (bytesOf ''f'')"
    by blast
  from r c m s n obtain db' where
    h: "HSet ?db (bytesOf ''H'') (bytesOf ''f'') (bytesOf ''v1'') = Some (db', 1, None)"
    and f: "fieldExists db' (bytesOf ''H'') (bytesOf ''f'')"
    by auto
  have c2: "checkKeyValue db' (bytesOf ''H'') [bytesOf ''v2''] = None"
    and m2: "IdxMode db' = KeyOnlyMemMode" and s2: "storeSucceeds db'" and a2: "activeFile db' \<noteq> None"
    using h by (auto simp: hash_defs)
  note r2 = hash_set_results [of db' "bytesOf ''H''" "bytesOf ''f''" "bytesOf ''v2''"]
  from r2 c2 m2 s2 f have "\<exists>db''. HSet db' (bytesOf ''H'') (bytesOf ''f'') (bytesOf ''v2'') = Some (db'', 0, None)"
    by auto
  moreover from r2 c2 a2 f have "fst (snd (HSetNx db' (bytesOf ''H'') (bytesOf ''f'') (bytesOf ''v2''))) = 0"
    by simp
  ultimately show ?thesis
    using c m s n nx nxe h f by blast
qed

lemma setHashIndexer_keeps_file:
  "setHashIndexer db e onlyNotExist = (db', res) \<Longrightarrow>
   activeFile db' = activeFile db \<and> hio db' = hio db \<and> stored db' = stored db"
  by (auto simp: setHashIndexer_def HSetIndexer_def Let_def split: sum.splits option.splits if_splits)

lemma hashHDel_result:
  "hashHDel db key field = (db', ok) \<Longrightarrow>
   activeFile db' = activeFile db \<and> hio db' = hio db \<and> stored db' = stored db
   \<and> (ok = 1 \<longleftrightarrow> fieldExists db key field) \<and> \<not> fieldExists db' key field"
  by (auto simp: hashHDel_def fieldExists_def split: option.splits)

lemma store_fail_stored:
  "\<not> storeSucceeds db \<Longrightarrow> \<exists>db1 err. store db e = (db1, Some err) \<and> indexes db1 = indexes db \<and> stored db1 = stored db"
  by (cases "activeFile db")
    (auto simp: storeSucceeds_def store_def getActiveFile_def Let_def split: list.splits)

text \<open>
  \<open>HSetNx\<close> updates the index before it stores the entry: when the store fails on a
  field that did not exist, it returns 1 with the error, the index holds the field and
  nothing was written.
\<close>

theorem HSetNx_indexes_before_store:
  assumes c: "checkKeyValue db key [val] = None" and a: "activeFile db \<noteq> None"
    and n: "\<not> fieldExists db key field" and f: "\<not> storeSucceeds db"
  shows "\<exists>db' err. HSetNx db key field val = (db', 1, Some err)
           \<and> fieldExists db' key field \<and> stored db' = stored db"
proof -
  from setHashIndexer_active [OF a, of key val field HashHSet True] n obtain db1 where
    s: "setHashIndexer db (NewEntry key val field HashHSet) True = (db1, 1)"
    and f1: "fieldExists db1 key field"
    by auto
  from setHashIndexer_keeps_file [OF s] f have "\<not> storeSucceeds db1" and st1: "stored db1 = stored db"
    by (simp_all add: storeSucceeds_def)
  from store_fail_stored [OF this(1), of "NewEntry key val field HashHSet"] obtain db2 err where
    st: "store db1 (NewEntry key val field HashHSet) = (db2, Some err)"
    and i2: "indexes db2 = indexes db1" and st2: "stored db2 = stored db1"
    by blast
  have "fieldExists db2 key field"
    using f1 fieldExists_cong [OF i2] by simp
  with c s st st1 st2 show ?thesis
    by (simp add: HSetNx_def Let_def)
qed

theorem HSetNx_indexes_before_store_witness:
  "checkKeyValue (openHashDB KeyOnlyMemMode [False]) (bytesOf ''H'') [bytesOf ''v''] = None
   \<and> activeFile (openHashDB KeyOnlyMemMode [False]) \<noteq> None
   \<and> \<not> fieldExists (openHashDB KeyOnlyMemMode [False]) (bytesOf ''H'') (bytesOf ''f'')
   \<and> \<not> storeSucceeds (openHashDB KeyOnlyMemMode [False])
   \<and> (\<exists>db'. HSetNx (openHashDB KeyOnlyMemMode [False]) (bytesOf ''H'') (bytesOf ''f'') (bytesOf ''v'')
               = (db', 1, Some ErrIO)
         \<and> fieldExists db' (bytesOf ''H'') (bytesOf ''f'') \<and> stored db' = [])"
proof -
  let ?db = "openHashDB KeyOnlyMemMode [False]"
  have c: "checkKeyValue ?db (bytesOf ''H'') [bytesOf ''v''] = None"
    and a: "activeFile ?db \<noteq> None"
    and n: "\<not> fieldExists ?db (bytesOf ''H'') (bytesOf ''f'')"
    and f: "\<not> storeSucceeds ?db"
    by (simp_all add: openHashDB_def storeSucceeds_def fieldExists_def)
  have e: "snd (snd (HSetNx ?db (bytesOf ''H'') (bytesOf ''f'') (bytesOf ''v''))) = Some ErrIO"
    by (simp add: hash_defs)
  have s: "stored ?db = []"
    by (simp add: openHashDB_def)
  from HSetNx_indexes_before_store [OF c a n f] e s c a n f show ?thesis
    by auto
qed

text \<open>
  \<open>HDel\<close> removes the field from the index before it stores the tombstone: when the
  store fails, it returns the error, the field is gone from the index and nothing was
  written.
\<close>

theorem HDel_indexes_before_store:
  assumes c: "checkKeyValue db key [[]] = None" and e: "fieldExists db key field"
    and f: "\<not> storeSucceeds db"
  shows "\<exists>db' err. HDel db key [field] = (db', 0, Some err)
           \<and> \<not> fieldExists db' key field \<and> stored db' = stored db"
proof -
  obtain db1 ok where d: "hashHDel db key field = (db1, ok)"
    by (cases "hashHDel db key field")
  from hashHDel_result [OF d] e f have ok: "ok = 1" and n1: "\<not> fieldExists db1 key field"
    and f1: "\<not> storeSucceeds db1" and st1: "stored db1 = stored db"
    by (simp_all add: storeSucceeds_def)
  from store_fail_stored [OF f1, of "NewEntry key [] field HashHDel"] obtain db2 err where
    st: "store db1 (NewEntry key [] field HashHDel) = (db2, Some err)"
    and i2: "indexes db2 = indexes db1" and st2: "stored db2 = stored db1"
    by blast
  have "\<not> fieldExists db2 key field"
    using n1 fieldExists_cong [OF i2] by simp
  with c d ok st st1 st2 show ?thesis
    by (simp add: HDel_def)
qed

theorem HDel_indexes_before_store_witness:
  "checkKeyValue hashFailDB (bytesOf ''H'') [[]] = None
   \<and> fieldExists hashFailDB (bytesOf ''H'') (bytesOf ''f'')
   \<and> \<not> storeSucceeds hashFailDB
   \<and> (\<exists>db'. HDel hashFailDB (bytesOf ''H'') [bytesOf ''f''] = (db', 0, Some ErrIO)
         \<and> \<not> fieldExists db' (bytesOf ''H'') (bytesOf ''f'') \<and> stored db' = stored hashFailDB)"
proof -
  have c: "checkKeyValue hashFailDB (bytesOf ''H'') [[]] = None"
    and e: "fieldExists hashFailDB (bytesOf ''H'') (bytesOf ''f'')"
    and f: "\<not> storeSucceeds hashFailDB"
    by (simp_all add: hashFailDB_def hash_defs)
  have r: "snd (snd (HDel hashFailDB (bytesOf ''H'') [bytesOf ''f''])) = Some ErrIO"
    by (simp add: hashFailDB_def hash_defs)
  from HDel_indexes_before_store [OF c e f] r c e f show ?thesis
    by auto
qed

section \<open>The string index as an ordered map\<close>

lemma Compare_less: "Compare a b < 0 \<longleftrightarrow> a < b"
  by (induction a b rule: Compare.induct) auto

lemma Compare_lexord: "Compare a b < 0 \<longleftrightarrow> (a, b) \<in> lexord {(x, y). x < y}"
  by (simp add: Compare_less list_less_def)

lemma Less_iff: "Less a b \<longleftrightarrow> itemKey a < itemKey b"
  by (simp add: Less_def Compare_less)

lemma sortedTree_Cons:
  "sortedTree (x # xs) \<longleftrightarrow> (\<forall>y\<in>set xs. itemKey x < itemKey y) \<and> sortedTree xs"
  by (simp add: sortedTree_def Less_iff)

lemma sortedTree_Nil [simp]: "sortedTree []"
  by (simp add: sortedTree_def)

lemma lookup_None: "(\<forall>x\<in>set t. itemKey x \<noteq> k) \<Longrightarrow> lookup t k = None"
  by (induction t) auto

lemma lookup_Some: "lookup t k = Some x \<Longrightarrow> x \<in> set t \<and> itemKey x = k"
  by (induction t) (auto split: if_splits)

lemma lookup_mem: "sortedTree t \<Longrightarrow> x \<in> set t \<Longrightarrow> lookup t (itemKey x) = Some x"
  by (induction t) (auto simp: sortedTree_Cons)

lemma btreeGet_lookup: "sortedTree t \<Longrightarrow> btreeGet t it = lookup t (itemKey it)"
proof (induction t)
  case Nil
  then show ?case by simp
next
  case (Cons x xs)
  then have s: "\<forall>y\<in>set xs. itemKey x < itemKey y" and ih: "btreeGet xs it = lookup xs (itemKey it)"
    by (simp_all add: sortedTree_Cons)
  show ?case
  proof (cases "itemKey it < itemKey x")
    case True
    with s have "\<forall>y\<in>set xs. itemKey y \<noteq> itemKey it"
      by fastforce
    with True show ?thesis
      by (simp add: Less_iff lookup_None)
  next
    case False
    with ih show ?thesis
      by (auto simp: Less_iff)
  qed
qed

lemma ReplaceOrInsert_keys:
  "set (map itemKey (fst (ReplaceOrInsert t it))) = insert (itemKey it) (set (map itemKey t))"
  by (induction t) (auto simp: Less_iff split: prod.splits)

lemma ReplaceOrInsert_sorted: "sortedTree t \<Longrightarrow> sortedTree (fst (ReplaceOrInsert t it))"
proof (induction t)
  case Nil
  then show ?case by (simp add: sortedTree_Cons)
next
  case (Cons x xs)
  then have s: "\<forall>y\<in>set xs. itemKey x < itemKey y" and sx: "sortedTree xs"
    and ih: "sortedTree (fst (ReplaceOrInsert xs it))"
    by (simp_all add: sortedTree_Cons)
  consider "itemKey it < itemKey x" | "itemKey x < itemKey it" | "itemKey it = itemKey x"
    by fastforce
  then show ?case
  proof cases
    case 1
    with s sx show ?thesis
      by (fastforce simp: Less_iff sortedTree_Cons)
  next
    case 2
    have "\<forall>y\<in>set (fst (ReplaceOrInsert xs it)). itemKey x < itemKey y"
    proof
      fix y
      assume "y \<in> set (fst (ReplaceOrInsert xs it))"
      then have "itemKey y \<in> set (map itemKey (fst (ReplaceOrInsert xs it)))"
        by simp
      then have "itemKey y = itemKey it \<or> itemKey y \<in> set (map itemKey xs)"
        unfolding ReplaceOrInsert_keys by simp
      with s 2 show "itemKey x < itemKey y"
        by auto
    qed
    with 2 ih show ?thesis
      by (auto simp: Less_iff sortedTree_Cons split: prod.splits)
  next
    case 3
    with s sx show ?thesis
      by (simp add: Less_iff sortedTree_Cons)
  qed
qed

lemma ReplaceOrInsert_lookup:
  "sortedTree t \<Longrightarrow>
   lookup (fst (ReplaceOrInsert t it)) k = (if k = itemKey it then Some it else lookup t k)"
proof (induction t)
  case Nil
  then show ?case by auto
next
  case (Cons x xs)
  then have s: "\<forall>y\<in>set xs. itemKey x < itemKey y"
    and ih: "lookup (fst (ReplaceOrInsert xs it)) k = (if k = itemKey it then Some it else lookup xs k)"
    by (simp_all add: sortedTree_Cons)
  consider "itemKey it < itemKey x" | "itemKey x < itemKey it" | "itemKey it = itemKey x"
    by fastforce
  then show ?case
  proof cases
    case 1
    then show ?thesis by (auto simp: Less_iff)
  next
    case 2
    with ih show ?thesis by (auto simp: Less_iff split: prod.splits)
  next
    case 3
    then show ?thesis by (auto simp: Less_iff)
  qed
qed

lemma ReplaceOrInsert_old: "sortedTree t \<Longrightarrow> snd (ReplaceOrInsert t it) = lookup t (itemKey it)"
proof (induction t)
  case Nil
  then show ?case by simp
next
  case (Cons x xs)
  then have s: "\<forall>y\<in>set xs. itemKey x < itemKey y"
    and ih: "snd (ReplaceOrInsert xs it) = lookup xs (itemKey it)"
    by (simp_all add: sortedTree_Cons)
  show ?case
  proof (cases "itemKey it < itemKey x")
    case True
    with s have "\<forall>y\<in>set xs. itemKey y \<noteq> itemKey it"
      by fastforce
    with True show ?thesis
      by (simp add: Less_iff lookup_None)
  next
    case False
    with ih show ?thesis
      by (auto simp: Less_iff split: prod.splits)
  qed
qed

lemma btreeDelete_keys:
  "sortedTree t \<Longrightarrow> set (map itemKey (fst (btreeDelete t it))) = set (map itemKey t) - {itemKey it}"
proof (induction t)
  case Nil
  then show ?case by simp
next
  case (Cons x xs)
  then have s: "\<forall>y\<in>set xs. itemKey x < itemKey y"
    and ih: "set (map itemKey (fst (btreeDelete xs it))) = set (map itemKey xs) - {itemKey it}"
    by (simp_all add: sortedTree_Cons)
  consider "itemKey it < itemKey x" | "itemKey x < itemKey it" | "itemKey it = itemKey x"
    by fastforce
  then show ?case
  proof cases
    case 1
    with s show ?thesis by (fastforce simp: Less_iff)
  next
    case 2
    then have "\<not> itemKey it < itemKey x"
      by simp
    with 2 have "fst (btreeDelete (x # xs) it) = x # fst (btreeDelete xs it)"
      by (simp add: Less_iff split: prod.splits)
    then have "set (map itemKey (fst (btreeDelete (x # xs) it)))
        = insert (itemKey x) (set (map itemKey (fst (btreeDelete xs it))))"
      by simp
    also have "\<dots> = insert (itemKey x) (set (map itemKey xs) - {itemKey it})"
      by (simp only: ih)
    also have "\<dots> = set (map itemKey (x # xs)) - {itemKey it}"
      using 2 by auto
    finally show ?thesis .
  next
    case 3
    with s show ?thesis by (fastforce simp: Less_iff)
  qed
qed

lemma btreeDelete_sorted: "sortedTree t \<Longrightarrow> sortedTree (fst (btreeDelete t it))"
proof (induction t)
  case Nil
  then show ?case by simp
next
  case (Cons x xs)
  then have s: "\<forall>y\<in>set xs. itemKey x < itemKey y" and sx: "sortedTree xs"
    and ih: "sortedTree (fst (btreeDelete xs it))"
    by (simp_all add: sortedTree_Cons)
  have "\<forall>y\<in>set (fst (btreeDelete xs it)). itemKey x < itemKey y"
  proof
    fix y
    assume "y \<in> set (fst (btreeDelete xs it))"
    then have "itemKey y \<in> set (map itemKey (fst (btreeDelete xs it)))"
      by simp
    then have "itemKey y \<in> set (map itemKey xs)"
      unfolding btreeDelete_keys [OF sx] by simp
    with s show "itemKey x < itemKey y"
      by auto
  qed
  with s sx ih show ?case
    by (auto simp: Less_iff sortedTree_Cons split: prod.splits)
qed

lemma btreeDelete_lookup:
  "sortedTree t \<Longrightarrow> lookup (fst (btreeDelete t it)) k = (if k = itemKey it then None else lookup t k)"
proof (induction t)
  case Nil
  then show ?case by simp
next
  case (Cons x xs)
  then have s: "\<forall>y\<in>set xs. itemKey x < itemKey y"
    and ih: "lookup (fst (btreeDelete xs it)) k = (if k = itemKey it then None else lookup xs k)"
    by (simp_all add: sortedTree_Cons)
  consider "itemKey it < itemKey x" | "itemKey x < itemKey it" | "itemKey it = itemKey x"
    by fastforce
  then show ?case
  proof cases
    case 1
    with s have "\<forall>y\<in>set xs. itemKey y \<noteq> itemKey it"
      by fastforce
    with 1 show ?thesis by (auto simp: Less_iff lookup_None)
  next
    case 2
    with ih show ?thesis by (auto simp: Less_iff split: prod.splits)
  next
    case 3
    with s have "\<forall>y\<in>set xs. itemKey y \<noteq> itemKey it"
      by fastforce
    with 3 show ?thesis by (auto simp: Less_iff lookup_None)
  qed
qed

lemma btreeDelete_old: "sortedTree t \<Longrightarrow> snd (btreeDelete t it) = lookup t (itemKey it)"
proof (induction t)
  case Nil
  then show ?case by simp
next
  case (Cons x xs)
  then have s: "\<forall>y\<in>set xs. itemKey x < itemKey y"
    and ih: "snd (btreeDelete xs it) = lookup xs (itemKey it)"
    by (simp_all add: sortedTree_Cons)
  show ?case
  proof (cases "itemKey it < itemKey x")
    case True
    with s have "\<forall>y\<in>set xs. itemKey y \<noteq> itemKey it"
      by fastforce
    with True show ?thesis
      by (simp add: Less_iff lookup_None)
  next
    case False
    with ih show ?thesis
      by (auto simp: Less_iff split: prod.splits)
  qed
qed

lemma sorted_lookup_unique:
  "sortedTree t1 \<Longrightarrow> sortedTree t2 \<Longrightarrow> (\<And>k. lookup t1 k = lookup t2 k) \<Longrightarrow> t1 = t2"
proof (induction t1 arbitrary: t2)
  case Nil
  show ?case
  proof (cases t2)
    case Nil
    then show ?thesis by simp
  next
    case (Cons y ys)
    with Nil.prems(3) [of "itemKey y"] show ?thesis by simp
  qed
next
  case (Cons x xs)
  show ?case
  proof (cases t2)
    case Nil
    with Cons.prems(3) [of "itemKey x"] show ?thesis by simp
  next
    case t2: (Cons y ys)
    from Cons.prems(1) have sx: "\<forall>z\<in>set xs. itemKey x < itemKey z" and sxs: "sortedTree xs"
      by (simp_all add: sortedTree_Cons)
    from Cons.prems(2) t2 have sy: "\<forall>z\<in>set ys. itemKey y < itemKey z" and sys: "sortedTree ys"
      by (simp_all add: sortedTree_Cons)
    have "lookup (y # ys) (itemKey x) = Some x"
      using Cons.prems(3) [of "itemKey x"] t2 by simp
    then have xin: "x = y \<or> (x \<in> set ys)"
      by (auto dest: lookup_Some split: if_splits)
    have "lookup (x # xs) (itemKey y) = Some y"
      using Cons.prems(3) [of "itemKey y"] t2 by simp
    then have yin: "y = x \<or> (y \<in> set xs)"
      by (auto dest: lookup_Some split: if_splits)
    have xy: "x = y"
    proof (rule ccontr)
      assume "x \<noteq> y"
      with xin yin have "x \<in> set ys" "y \<in> set xs" by auto
      with sx sy have "itemKey x < itemKey y" "itemKey y < itemKey x" by auto
      then show False by simp
    qed
    have "lookup xs k = lookup ys k" for k
    proof (cases "k = itemKey x")
      case True
      with sx sy xy have "lookup xs k = None" "lookup ys k = None"
        by (auto intro!: lookup_None)
      then show ?thesis by simp
    next
      case False
      with Cons.prems(3) [of k] t2 xy show ?thesis by simp
    qed
    with Cons.IH [OF sxs sys] xy t2 show ?thesis by simp
  qed
qed

lemma btreeAscend_prefix: "btreeAscend t f = takeWhile f t @ take 1 (dropWhile f t)"
  by (induction t) auto

lemma btreeAscend_all: "btreeAscend t (\<lambda>i. True) = t"
  by (induction t) auto

lemma Get_lookup: "sortedTree mt \<Longrightarrow> Get mt k = (case lookup mt k of Some v \<Rightarrow> itemPos v | None \<Rightarrow> None)"
  by (simp add: Get_def btreeGet_lookup)

lemma fst_Put: "fst (Put mt k p) = fst (ReplaceOrInsert mt (Item k p))"
  by (simp add: Put_def split: prod.splits option.splits)

lemma Put_sorted: "sortedTree mt \<Longrightarrow> sortedTree (fst (Put mt k p))"
  by (simp add: fst_Put ReplaceOrInsert_sorted)

lemma Put_lookup:
  "sortedTree mt \<Longrightarrow> lookup (fst (Put mt k p)) k' = (if k' = k then Some (Item k p) else lookup mt k')"
  by (simp add: fst_Put ReplaceOrInsert_lookup)

lemma Put_old: "sortedTree mt \<Longrightarrow> snd (Put mt k p) = Get mt k"
proof -
  assume s: "sortedTree mt"
  have "snd (Put mt k p) = (case snd (ReplaceOrInsert mt (Item k p)) of Some v \<Rightarrow> itemPos v | None \<Rightarrow> None)"
    by (simp add: Put_def split: prod.splits option.splits)
  with s show ?thesis
    by (simp add: ReplaceOrInsert_old Get_lookup)
qed

lemma Get_Put:
  assumes "sortedTree mt"
  shows "Get (fst (Put mt k p)) k' = (if k' = k then p else Get mt k')"
proof -
  have "sortedTree (fst (Put mt k p))"
    using assms by (rule Put_sorted)
  then have "Get (fst (Put mt k p)) k'
      = (case lookup (fst (Put mt k p)) k' of Some v \<Rightarrow> itemPos v | None \<Rightarrow> None)"
    by (rule Get_lookup)
  also have "lookup (fst (Put mt k p)) k' = (if k' = k then Some (Item k p) else lookup mt k')"
    using assms by (rule Put_lookup)
  finally show ?thesis
    using assms by (simp add: Get_lookup)
qed

lemma Put_keys: "set (map itemKey (fst (Put mt k p))) = insert k (set (map itemKey mt))"
  using ReplaceOrInsert_keys [of mt "Item k p"] by (simp add: fst_Put)

lemma fst_Delete: "fst (Delete mt k) = fst (btreeDelete mt (Item k None))"
  by (simp add: Delete_def split: prod.splits option.splits)

lemma Delete_sorted: "sortedTree mt \<Longrightarrow> sortedTree (fst (Delete mt k))"
  by (simp add: fst_Delete btreeDelete_sorted)

lemma lookup_keys: "lookup mt k \<noteq> None \<longleftrightarrow> k \<in> set (map itemKey mt)"
  by (induction mt) auto

lemma Delete_result:
  assumes "sortedTree mt"
  shows "snd (Delete mt k) = (Get mt k, k \<in> set (map itemKey mt))"
proof -
  have o: "snd (btreeDelete mt (Item k None)) = lookup mt k"
    using btreeDelete_old [OF assms, of "Item k None"] by simp
  show ?thesis
  proof (cases "lookup mt k")
    case None
    with o lookup_keys [of mt k] assms show ?thesis
      by (cases "btreeDelete mt (Item k None)") (simp add: Delete_def Get_lookup)
  next
    case (Some v)
    with o lookup_keys [of mt k] assms show ?thesis
      by (cases "btreeDelete mt (Item k None)") (simp add: Delete_def Get_lookup)
  qed
qed

lemma Get_Delete:
  assumes "sortedTree mt"
  shows "Get (fst (Delete mt k)) k' = (if k' = k then None else Get mt k')"
proof -
  have "sortedTree (fst (Delete mt k))"
    using assms by (rule Delete_sorted)
  then have "Get (fst (Delete mt k)) k'
      = (case lookup (fst (Delete mt k)) k' of Some v \<Rightarrow> itemPos v | None \<Rightarrow> None)"
    by (rule Get_lookup)
  also have "lookup (fst (Delete mt k)) k' = (if k' = k then None else lookup mt k')"
    using btreeDelete_lookup [OF assms, of "Item k None" k'] by (simp add: fst_Delete)
  finally show ?thesis
    using assms by (simp add: Get_lookup)
qed

lemma Delete_keys:
  "sortedTree mt \<Longrightarrow> set (map itemKey (fst (Delete mt k))) = set (map itemKey mt) - {k}"
  using btreeDelete_keys [of mt "Item k None"] by (simp add: fst_Delete)

lemma Less_eq: "Less = (\<lambda>x y. Compare (itemKey x) (itemKey y) < 0)"
  by (intro ext) (simp add: Less_def)

lemma Less_eq_less: "Less = (\<lambda>x y. itemKey x < itemKey y)"
  by (intro ext) (simp add: Less_iff)

lemma Ascend_all: "Ascend mt (\<lambda>k p. True) = map (\<lambda>i. (itemKey i, itemPos i)) mt"
  by (simp add: Ascend_def btreeAscend_all)

lemma Descend_all: "Descend mt (\<lambda>k p. True) = rev (Ascend mt (\<lambda>k p. True))"
  by (simp add: Descend_def btreeDescend_def Ascend_def btreeAscend_all rev_map)

lemma Ascend_keys_sorted:
  assumes "sortedTree mt"
  shows "sorted_wrt (\<lambda>a b. Compare a b < 0) (map fst (Ascend mt (\<lambda>k p. True)))"
proof -
  have "sorted_wrt (\<lambda>a b. Compare a b < 0) (map itemKey mt)"
    using assms by (simp add: sortedTree_def sorted_wrt_map Less_eq)
  then show ?thesis
    by (simp add: Ascend_all comp_def)
qed

lemma Ascend_keys_distinct:
  assumes "sortedTree mt"
  shows "distinct (map fst (Ascend mt (\<lambda>k p. True)))"
proof -
  have "sorted_wrt (<) (map itemKey mt)"
    using assms by (simp add: sortedTree_def sorted_wrt_map Less_eq_less)
  then have "distinct (map itemKey mt)"
    by (simp add: strict_sorted_iff)
  then show ?thesis
    by (simp add: Ascend_all comp_def)
qed

lemma Ascend_stops:
  "Ascend mt f = takeWhile (\<lambda>(k, p). f k p) (Ascend mt (\<lambda>k p. True))
                 @ take 1 (dropWhile (\<lambda>(k, p). f k p) (Ascend mt (\<lambda>k p. True)))"
  by (simp add: Ascend_all Ascend_def btreeAscend_prefix takeWhile_map dropWhile_map take_map
      comp_def)

lemma Descend_stops:
  "Descend mt f = takeWhile (\<lambda>(k, p). f k p) (Descend mt (\<lambda>k p. True))
                  @ take 1 (dropWhile (\<lambda>(k, p). f k p) (Descend mt (\<lambda>k p. True)))"
  using Ascend_stops [of "rev mt" f] by (simp add: Descend_def btreeDescend_def Ascend_def)

lemma PutAll_sorted: "sortedTree mt \<Longrightarrow> sortedTree (PutAll mt kvs)"
  by (induction kvs arbitrary: mt) (auto simp: Put_sorted)

lemma PutAll_lookup:
  "sortedTree mt \<Longrightarrow>
   lookup (PutAll mt kvs) k = (case map_of (rev kvs) k of Some p \<Rightarrow> Some (Item k p) | None \<Rightarrow> lookup mt k)"
proof (induction kvs arbitrary: mt)
  case Nil
  then show ?case by simp
next
  case (Cons kv kvs)
  obtain k' p where kv: "kv = (k', p)"
    by (cases kv)
  from Cons.IH [OF Put_sorted [OF Cons.prems], of k' p] Cons.prems kv show ?case
    by (auto simp: Put_lookup map_add_def split: option.splits)
qed

lemma PutAll_order:
  assumes "distinct (map fst kvs)" and "distinct (map fst kvs')" and "set kvs = set kvs'"
  shows "PutAll newBTree kvs = PutAll newBTree kvs'"
proof (rule sorted_lookup_unique)
  show "sortedTree (PutAll newBTree kvs)" "sortedTree (PutAll newBTree kvs')"
    by (simp_all add: PutAll_sorted newBTree_def)
  have "map_of (rev kvs) = map_of (rev kvs')"
    using assms by (subst map_of_inject_set) (simp_all add: rev_map [symmetric])
  then show "lookup (PutAll newBTree kvs) k = lookup (PutAll newBTree kvs') k" for k
    by (simp add: PutAll_lookup newBTree_def)
qed

lemma Put_commute:
  assumes "sortedTree mt" and "k1 \<noteq> k2"
  shows "fst (Put (fst (Put mt k1 p1)) k2 p2) = fst (Put (fst (Put mt k2 p2)) k1 p1)"
proof (rule sorted_lookup_unique)
  show "sortedTree (fst (Put (fst (Put mt k1 p1)) k2 p2))" "sortedTree (fst (Put (fst (Put mt k2 p2)) k1 p1))"
    using assms(1) by (simp_all add: Put_sorted)
  show "lookup (fst (Put (fst (Put mt k1 p1)) k2 p2)) k = lookup (fst (Put (fst (Put mt k2 p2)) k1 p1)) k" for k
    using assms by (simp add: Put_lookup Put_sorted)
qed

text \<open>
  Claim C9. On a tree that satisfies the library's ordering invariant (which \<open>Put\<close>
  and \<open>Delete\<close> keep, and every tree built by \<open>Put\<close>s from the empty one has):
  \<open>Put\<close> returns the position stored before (that of \<open>Get\<close>, nil when the key was
  absent) and stores the new one; \<open>Delete\<close> returns the removed position with whether
  the key was stored, and removes only that key; \<open>Ascend\<close> visits every stored item
  once, keys strictly ascending under \<open>bytes.Compare\<close>, which is the lexicographic
  order on bytes, \<open>Descend\<close> the same items in reverse; both stop after the first
  item on which the callback returns false; and the tree does not depend on the order
  of insertion.
\<close>

theorem string_index_ordered_map:
  assumes "sortedTree mt"
  shows "sortedTree (fst (Put mt k p)) \<and> sortedTree (fst (Delete mt k))
       \<and> snd (Put mt k p) = Get mt k
       \<and> Get (fst (Put mt k p)) k' = (if k' = k then p else Get mt k')
       \<and> set (map itemKey (fst (Put mt k p))) = insert k (set (map itemKey mt))
       \<and> snd (Delete mt k) = (Get mt k, k \<in> set (map itemKey mt))
       \<and> Get (fst (Delete mt k)) k' = (if k' = k then None else Get mt k')
       \<and> set (map itemKey (fst (Delete mt k))) = set (map itemKey mt) - {k}
       \<and> Ascend mt (\<lambda>k p. True) = map (\<lambda>i. (itemKey i, itemPos i)) mt
       \<and> sorted_wrt (\<lambda>a b. Compare a b < 0) (map fst (Ascend mt (\<lambda>k p. True)))
       \<and> distinct (map fst (Ascend mt (\<lambda>k p. True)))
       \<and> Descend mt (\<lambda>k p. True) = rev (Ascend mt (\<lambda>k p. True))
       \<and> Ascend mt f = takeWhile (\<lambda>(k, p). f k p) (Ascend mt (\<lambda>k p. True))
                         @ take 1 (dropWhile (\<lambda>(k, p). f k p) (Ascend mt (\<lambda>k p. True)))
       \<and> Descend mt f = takeWhile (\<lambda>(k, p). f k p) (Descend mt (\<lambda>k p. True))
                          @ take 1 (dropWhile (\<lambda>(k, p). f k p) (Descend mt (\<lambda>k p. True)))
       \<and> (Compare a b < 0 \<longleftrightarrow> (a, b) \<in> lexord {(x, y). x < y})
       \<and> (k1 \<noteq> k2 \<longrightarrow> fst (Put (fst (Put mt k1 p1)) k2 p2) = fst (Put (fst (Put mt k2 p2)) k1 p1))
       \<and> sortedTree (PutAll newBTree kvs)
       \<and> (distinct (map fst kvs) \<and> distinct (map fst kvs') \<and> set kvs = set kvs' \<longrightarrow>
            PutAll newBTree kvs = PutAll newBTree kvs')"
proof -
  note s = assms
  have 1: "sortedTree (fst (Put mt k p))" "sortedTree (fst (Delete mt k))"
    using s by (simp_all add: Put_sorted Delete_sorted)
  have 2: "snd (Put mt k p) = Get mt k"
    using s by (rule Put_old)
  have 3: "Get (fst (Put mt k p)) k' = (if k' = k then p else Get mt k')"
    using s by (rule Get_Put)
  have 4: "set (map itemKey (fst (Put mt k p))) = insert k (set (map itemKey mt))"
    by (rule Put_keys)
  have 5: "snd (Delete mt k) = (Get mt k, k \<in> set (map itemKey mt))"
    using s by (rule Delete_result)
  have 6: "Get (fst (Delete mt k)) k' = (if k' = k then None else Get mt k')"
    using s by (rule Get_Delete)
  have 7: "set (map itemKey (fst (Delete mt k))) = set (map itemKey mt) - {k}"
    using s by (rule Delete_keys)
  have 8: "sorted_wrt (\<lambda>a b. Compare a b < 0) (map fst (Ascend mt (\<lambda>k p. True)))"
    "distinct (map fst (Ascend mt (\<lambda>k p. True)))"
    using s by (simp_all add: Ascend_keys_sorted Ascend_keys_distinct)
  have 9: "k1 \<noteq> k2 \<longrightarrow> fst (Put (fst (Put mt k1 p1)) k2 p2) = fst (Put (fst (Put mt k2 p2)) k1 p1)"
    using s by (simp add: Put_commute)
  have 10: "sortedTree (PutAll newBTree kvs)"
    by (simp add: PutAll_sorted newBTree_def)
  have 11: "distinct (map fst kvs) \<and> distinct (map fst kvs') \<and> set kvs = set kvs' \<longrightarrow>
            PutAll newBTree kvs = PutAll newBTree kvs'"
    using PutAll_order by blast
  show ?thesis
    using 1 2 3 4 5 6 7 8 9 10 11 Ascend_all [of mt] Descend_all [of mt] Ascend_stops [of mt f]
      Descend_stops [of mt f] Compare_lexord [of a b]
    by (intro conjI)
qed

lemmas btree_defs = exampleTree_def newBTree_def Put_def Get_def Delete_def Ascend_def Descend_def
  btreeDescend_def Less_def sortedTree_def

theorem string_index_ordered_map_witness:
  "sortedTree exampleTree
   \<and> exampleTree = [Item [97] (Some 1), Item [97, 98] (Some 3), Item [98] (Some 2)]
   \<and> snd (Put exampleTree [97] (Some 9)) = Some 1
   \<and> Get (fst (Put exampleTree [97] (Some 9))) [97] = Some 9
   \<and> Get exampleTree [98] = Some 2 \<and> Get exampleTree [99] = None
   \<and> snd (Delete exampleTree [97]) = (Some 1, True)
   \<and> snd (Delete exampleTree [99]) = (None, False)
   \<and> Ascend exampleTree (\<lambda>k p. True) = [([97], Some 1), ([97, 98], Some 3), ([98], Some 2)]
   \<and> Descend exampleTree (\<lambda>k p. True) = [([98], Some 2), ([97, 98], Some 3), ([97], Some 1)]
   \<and> Ascend exampleTree (\<lambda>k p. k \<noteq> [97, 98]) = [([97], Some 1), ([97, 98], Some 3)]
   \<and> PutAll newBTree [([97, 98], Some 3), ([98], Some 2), ([97], Some 1)] = exampleTree"
proof -
  have e: "exampleTree = [Item [97] (Some 1), Item [97, 98] (Some 3), Item [98] (Some 2)]"
    by (simp add: btree_defs)
  have s: "sortedTree exampleTree"
    by (simp add: e sortedTree_def Less_def)
  have g: "Get exampleTree [97] = Some 1" "Get exampleTree [98] = Some 2" "Get exampleTree [99] = None"
    by (simp_all add: e Get_def Less_def)
  have k: "[97] \<in> set (map itemKey exampleTree)" "[99] \<notin> set (map itemKey exampleTree)"
    by (simp_all add: e)
  have a: "Ascend exampleTree (\<lambda>k p. k \<noteq> [97, 98]) = [([97], Some 1), ([97, 98], Some 3)]"
    by (simp add: e Ascend_def)
  have d: "distinct (map fst [([97, 98], Some (3::nat)), ([98 :: byte], Some 2), ([97], Some 1)])"
    "distinct (map fst [([98 :: byte], Some (2::nat)), ([97], Some 1), ([97, 98], Some 3)])"
    "set [([97, 98], Some (3::nat)), ([98 :: byte], Some 2), ([97], Some 1)]
      = set [([98], Some 2), ([97], Some 1), ([97, 98], Some 3)]"
    by auto
  note r1 = string_index_ordered_map [OF s, of "[97]" "Some 9" "[97]" "\<lambda>k p. k \<noteq> [97, 98]" "[]" "[]"
      "[97]" "[98]" None None
      "[([97, 98], Some (3::nat)), ([98], Some 2), ([97], Some 1)]"
      "[([98], Some (2::nat)), ([97], Some 1), ([97, 98], Some 3)]"]
  note r2 = string_index_ordered_map [OF s, of "[99]" None "[99]"]
  note c3 = r1 [THEN conjunct2, THEN conjunct2]
  note q1 = c3 [THEN conjunct1]
  note q2 = c3 [THEN conjunct2, THEN conjunct1]
  note c6 = c3 [THEN conjunct2, THEN conjunct2, THEN conjunct2]
  note q3 = c6 [THEN conjunct1]
  note c9 = c6 [THEN conjunct2, THEN conjunct2, THEN conjunct2]
  note q4 = c9 [THEN conjunct1]
  note c12 = c9 [THEN conjunct2, THEN conjunct2, THEN conjunct2]
  note q5 = c12 [THEN conjunct1]
  note c15 = c12 [THEN conjunct2, THEN conjunct2, THEN conjunct2]
  note q6 = c15 [THEN conjunct2, THEN conjunct2, THEN conjunct2]
  note q7 = r2 [THEN conjunct2, THEN conjunct2, THEN conjunct2, THEN conjunct2, THEN conjunct2, THEN conjunct1]
  have m: "map (\<lambda>i. (itemKey i, itemPos i)) exampleTree = [([97], Some 1), ([97, 98], Some 3), ([98], Some 2)]"
    by (simp add: e)
  have p1: "snd (Put exampleTree [97] (Some 9)) = Some 1"
    using q1 g by simp
  have p2: "Get (fst (Put exampleTree [97] (Some 9))) [97] = Some 9"
    using q2 by simp
  have p3: "snd (Delete exampleTree [97]) = (Some 1, True)"
    using q3 g k by simp
  have p4: "Ascend exampleTree (\<lambda>k p. True) = [([97], Some 1), ([97, 98], Some 3), ([98], Some 2)]"
    using q4 m by simp
  have p5: "Descend exampleTree (\<lambda>k p. True) = [([98], Some 2), ([97, 98], Some 3), ([97], Some 1)]"
    using q5 p4 by simp
  have p6: "PutAll newBTree [([97, 98], Some 3), ([98], Some 2), ([97], Some 1)] = exampleTree"
    using q6 d unfolding exampleTree_def by blast
  have p7: "snd (Delete exampleTree [99]) = (None, False)"
    using q7 g k by simp
  show ?thesis
    using s e p1 p2 p3 p4 p5 p6 p7 g a by (intro conjI)
qed

section \<open>HSet on a new field in key-value mode\<close>

lemma HGet_key_value_absent:
  assumes "checkKeyValue db key [[]] = None" and "IdxMode db = KeyValueMemMode"
    and "\<not> fieldExists db key field"
  shows "HGet db key field = None"
  using assms
  by (auto simp: HGet_def hashHGet_def fieldExists_def Let_def split: option.splits)

lemma HSet_key_value_new_field:
  assumes "checkKeyValue db key [val] = None" and "checkKeyValue db key [[]] = None"
    and "IdxMode db = KeyValueMemMode" and "\<not> fieldExists db key field"
  shows "HSet db key field val = None"
  using assms HGet_key_value_absent [OF assms(2,3,4)]
  by (simp add: HSet_def Let_def)

text \<open>
  Claim C7 says that \<open>HSet\<close> returns 1 when the field is new. In key-value mode the
  code does not: \<open>HSet\<close> first asks \<open>HGet\<close> for the old value, the index holds no
  indexer for a new field, and \<open>HGet\<close> reads \<^verbatim>\<open>idx.Meta.Value\<close> through the nil
  pointer. On the empty store in key-value mode, with a store that would succeed,
  \<open>HSet("H","f","v1")\<close> panics instead of returning 1, while \<open>HSetNx\<close> on the same
  input returns 1 and \<open>HSet\<close> in key-only mode returns 1.
\<close>

theorem HSet_new_field_key_value_mode:
  "IdxMode (openHashDB KeyValueMemMode []) = KeyValueMemMode
   \<and> \<not> fieldExists (openHashDB KeyValueMemMode []) (bytesOf ''H'') (bytesOf ''f'')
   \<and> storeSucceeds (openHashDB KeyValueMemMode [])
   \<and> HGet (openHashDB KeyValueMemMode []) (bytesOf ''H'') (bytesOf ''f'') = None
   \<and> HSet (openHashDB KeyValueMemMode []) (bytesOf ''H'') (bytesOf ''f'') (bytesOf ''v1'') = None
   \<and> fst (snd (HSetNx (openHashDB KeyValueMemMode []) (bytesOf ''H'') (bytesOf ''f'') (bytesOf ''v1''))) = 1
   \<and> map_option (\<lambda>r. fst (snd r))
        (HSet (openHashDB KeyOnlyMemMode []) (bytesOf ''H'') (bytesOf ''f'') (bytesOf ''v1'')) = Some 1"
proof -
  let ?db = "openHashDB KeyValueMemMode []"
  have c: "checkKeyValue ?db (bytesOf ''H'') [bytesOf ''v1''] = None"
    "checkKeyValue ?db (bytesOf ''H'') [[]] = None"
    and m: "IdxMode ?db = KeyValueMemMode"
    and n: "\<not> fieldExists ?db (bytesOf ''H'') (bytesOf ''f'')"
    and s: "storeSucceeds ?db"
    by (simp_all add: openHashDB_def fieldExists_def storeSucceeds_def)
  have g: "HGet ?db (bytesOf ''H'') (bytesOf ''f'') = None"
    using c(2) m n by (rule HGet_key_value_absent)
  have h: "HSet ?db (bytesOf ''H'') (bytesOf ''f'') (bytesOf ''v1'') = None"
    using c m n by (rule HSet_key_value_new_field)
  have x: "fst (snd (HSetNx ?db (bytesOf ''H'') (bytesOf ''f'') (bytesOf ''v1''))) = 1"
    by (simp add: hash_defs)
  have k: "map_option (\<lambda>r. fst (snd r))
        (HSet (openHashDB KeyOnlyMemMode []) (bytesOf ''H'') (bytesOf ''f'') (bytesOf ''v1'')) = Some 1"
    by (simp add: hash_defs)
  show ?thesis
    using m n s g h x k by (intro conjI)
qed

end
